theory Spec2Isabelle
  imports Complex_Main "HOL-Library.Log_Nat" "HOL-Library.Signed_Division"
begin

section \<open>Time\<close>

text \<open>
  A \<open>time.Time\<close> is modelled as the number of nanoseconds since the Unix epoch, a
  \<open>time.Duration\<close> as a number of nanoseconds inside the range of \<open>int64\<close>.
  \<open>Time.Sub\<close> saturates at the largest and the smallest duration, as the Go library does.
\<close>

type_synonym time = int
type_synonym duration = int

definition Second :: duration where
  "Second = 1000000000"

definition maxDuration :: duration where
  "maxDuration = 9223372036854775807"

definition minDuration :: duration where
  "minDuration = - 9223372036854775808"

definition zeroTime :: time where
  "zeroTime = - 62135596800 * 1000000000"

definition Sub :: "time \<Rightarrow> time \<Rightarrow> duration" where
  "Sub t u =
     (let d = t - u
      in if d > maxDuration then maxDuration
         else if d < minDuration then minDuration
         else d)"

definition Since :: "time \<Rightarrow> time \<Rightarrow> duration" where
  "Since now t = Sub now t"

subsection \<open>Arithmetic in \<open>float64\<close>\<close>

text \<open>
  A \<open>float64\<close> is modelled by the rational number it stands for. Every conversion to
  \<open>float64\<close> and every operation on \<open>float64\<close> rounds its exact result to the nearest
  number with a significand of 53 bits, and to the one with an even significand when two are
  equally near. \<open>ilog2 x\<close> is the exponent of a positive \<open>x\<close>, the \<open>e\<close> with
  \<open>2 ^ e \<le> x < 2 ^ (e + 1)\<close>, and \<open>rne\<close> rounds a quotient to the nearest
  integer, ties to even. The numbers rounded in this file are conversions of an
  \<open>int64\<close>, quotients of a whole number of nanoseconds below one second by \<open>1e9\<close>,
  and sums of two such numbers of the same sign: each is zero or has a magnitude between
  \<open>2 ^ - 30\<close> and \<open>2 ^ 63\<close>, inside the normal range of the format, so the model
  leaves the exponent unbounded.
\<close>

definition rne :: "rat \<Rightarrow> int" where
  "rne q =
     (let n = \<lfloor>q\<rfloor>; r = q - of_int n
      in if r < 1 / 2 then n
         else if 1 / 2 < r then n + 1
         else if even n then n else n + 1)"

definition ilog2 :: "rat \<Rightarrow> int" where
  "ilog2 x =
     (case quotient_of x of
        (p, q) \<Rightarrow>
          (let e = bitlen p - bitlen q
           in if 2 powi e \<le> x then e else e - 1))"

definition round_pos :: "rat \<Rightarrow> rat" where
  "round_pos x = (let u = 2 powi (ilog2 x - 52) in of_int (rne (x / u)) * u)"

definition float64 :: "rat \<Rightarrow> rat" where
  "float64 x = (if x = 0 then 0 else if 0 < x then round_pos x else - round_pos (- x))"

text \<open>
  \<open>Duration.Seconds\<close>: the whole seconds and the remaining nanoseconds of the duration,
  split by Go's truncating division, are converted to \<open>float64\<close>; the nanoseconds are
  divided by \<open>1e9\<close> and the two parts added, each operation in \<open>float64\<close>.
  \<open>exact_seconds\<close> is the same duration in seconds without any rounding; the code does
  not compute it, the statements below compare with it.
\<close>

definition Seconds :: "duration \<Rightarrow> rat" where
  "Seconds d =
     (let sec = d sdiv Second; nsec = d smod Second
      in float64 (float64 (of_int sec) + float64 (float64 (of_int nsec) / 1000000000)))"

definition exact_seconds :: "duration \<Rightarrow> rat" where
  "exact_seconds d = of_int d / 1000000000"

section \<open>The proxy\<close>

text \<open>
  The dial function returned by \<open>socks.Dial\<close> is identified by the connection string it
  was built from; a nil function or pointer is \<open>None\<close>.
\<close>

record Transport =
  Dial :: "string option"
  DisableKeepAlives :: bool

record Client =
  Transport :: "Transport option"
  Timeout :: duration

record Proxy =
  URL :: string
  Alive :: bool
  protocol :: string
  ip :: string
  port :: int
  lastRequest :: time
  dial :: "string option"
  transport :: "Transport option"
  client :: "Client option"

text \<open>
  What \<open>client.Get(url)\<close> gives back: an error, or a response with a status code and a
  body that \<open>ioutil.ReadAll\<close> reads completely or fails to read.

  The library and the network behind it are a parameter of the model.
  \<open>http.Client.Get\<close> first builds the request with \<open>http.NewRequest\<close>, which
  fails, before the client is touched, when the URL does not parse: \<open>NewRequest\<close> gives
  that error for a URL, if any. It then hands the request to \<open>Client.Do\<close>: \<open>Do\<close> gives
  the answer for a client, a target URL and the time of the request. On a nil client
  \<open>Client.Do\<close> dereferences the nil pointer and panics.
\<close>

datatype body_read = ReadAll string | ReadError string

datatype response = ClientError string | Response int body_read

record network =
  NewRequest :: "string \<Rightarrow> string option"
  Do :: "Client \<Rightarrow> string \<Rightarrow> time \<Rightarrow> response"

definition client_Get :: "network \<Rightarrow> Client \<Rightarrow> string \<Rightarrow> time \<Rightarrow> response" where
  "client_Get net c url now =
     (case NewRequest net url of
        Some err \<Rightarrow> ClientError err
      | None \<Rightarrow> Do net c url now)"

text \<open>
  The effects of a fetch in the order in which the code performs them: the writes of the two
  health fields, the call of \<open>Get\<close> on a bound client, and the line printed by
  \<open>fmt.Println\<close>.
\<close>

datatype event =
    WriteLastRequest time
  | HttpGet Client string
  | WriteAlive bool
  | Println string

text \<open>
  The two results of \<open>Proxy.Get\<close>, \<open>(buf, nil)\<close> and \<open>(nil, err)\<close>, and the
  panic of \<open>proxy.client.Get\<close> on a nil client for a URL that parses.
\<close>

datatype fetched = Body string | Failed string | NilDereference

subsection \<open>Printing integers (the verb \<open>%d\<close>)\<close>

definition digit_char :: "nat \<Rightarrow> char" where
  "digit_char n = char_of (48 + n)"

fun show_nat :: "nat \<Rightarrow> string" where
  "show_nat n = (if n < 10 then [digit_char n] else show_nat (n div 10) @ [digit_char (n mod 10)])"

declare show_nat.simps [simp del]

definition show_int :: "int \<Rightarrow> string" where
  "show_int i = (if i < 0 then CHR ''-'' # show_nat (nat (- i)) else show_nat (nat i))"

subsection \<open>\<open>Proxy.Get\<close>\<close>

definition StatusOK :: int where
  "StatusOK = 200"

definition Get :: "network \<Rightarrow> time \<Rightarrow> Proxy \<Rightarrow> string \<Rightarrow> Proxy \<times> fetched \<times> event list" where
  "Get net now proxy url =
     (let proxy1 = proxy\<lparr>lastRequest := now\<rparr>
      in case client proxy1 of
           None \<Rightarrow>
            (case NewRequest net url of
               None \<Rightarrow> (proxy1, NilDereference, [WriteLastRequest now])
             | Some err \<Rightarrow>
                 (proxy1\<lparr>Alive := False\<rparr>,
                  Failed (''HTTP request failed: '' @ err),
                  [WriteLastRequest now, WriteAlive False, Println err]))
         | Some c \<Rightarrow>
            (case client_Get net c url now of
               ClientError err \<Rightarrow>
                 (proxy1\<lparr>Alive := False\<rparr>,
                  Failed (''HTTP request failed: '' @ err),
                  [WriteLastRequest now, HttpGet c url, WriteAlive False, Println err])
             | Response StatusCode body \<Rightarrow>
                 (case body of
                    ReadError err \<Rightarrow>
                      (proxy1\<lparr>Alive := False\<rparr>,
                       Failed (''can't read response: '' @ err),
                       [WriteLastRequest now, HttpGet c url, WriteAlive False])
                  | ReadAll buf \<Rightarrow>
                      if StatusCode \<noteq> StatusOK
                      then (proxy1\<lparr>Alive := False\<rparr>,
                            Failed (''test URL replied with HTTP code '' @ show_int StatusCode),
                            [WriteLastRequest now, HttpGet c url, WriteAlive False])
                      else (proxy1\<lparr>Alive := True\<rparr>,
                            Body buf,
                            [WriteLastRequest now, HttpGet c url, WriteAlive True]))))"

subsection \<open>\<open>Proxy.Create\<close>\<close>

text \<open>
  The loop over \<open>socksVersions\<close>. Every call of \<open>time.Now\<close> made by the goroutine
  that runs \<open>Create\<close> takes the next reading of its clock \<open>clk\<close>; \<open>k\<close> counts the
  readings taken so far. \<open>Get\<close> is called on a proxy whose client was bound one line
  earlier, so it cannot panic there; the model ends the loop in that branch.
  The wait group only signals the end of the goroutine and carries no data.
\<close>

definition socksVersions :: "int list" where
  "socksVersions = [5, 4]"

fun Create_loop ::
  "network \<Rightarrow> (nat \<Rightarrow> time) \<Rightarrow> nat \<Rightarrow> int list \<Rightarrow> Proxy \<Rightarrow> string \<Rightarrow> Proxy \<times> event list"
where
  "Create_loop net clk k [] proxy testURL = (proxy, [])"
| "Create_loop net clk k (version # versions) proxy testURL =
     (let proxy1 = proxy\<lparr>URL := ''socks'' @ show_int version @ ''://'' @ ip proxy @ '':''
                                   @ show_int (port proxy)\<rparr>;
          proxy2 = proxy1\<lparr>dial := Some (URL proxy1 @ ''?timeout=20s'')\<rparr>;
          proxy3 = proxy2\<lparr>transport :=
                      Some \<lparr>Dial = dial proxy2, DisableKeepAlives = True\<rparr>\<rparr>;
          proxy4 = proxy3\<lparr>client :=
                      Some \<lparr>Transport = transport proxy3, Timeout = 20 * Second\<rparr>\<rparr>
      in case Get net (clk k) proxy4 testURL of
           (proxy5, Body buf, evs) \<Rightarrow> (proxy5, evs)
         | (proxy5, Failed err, evs) \<Rightarrow>
             (case Create_loop net clk (Suc k) versions proxy5 testURL of
                (proxy6, evs') \<Rightarrow> (proxy6, evs @ evs'))
         | (proxy5, NilDereference, evs) \<Rightarrow> (proxy5, evs))"

definition Create :: "network \<Rightarrow> (nat \<Rightarrow> time) \<Rightarrow> Proxy \<Rightarrow> string \<Rightarrow> Proxy \<times> event list" where
  "Create net clk proxy testURL = Create_loop net clk 0 socksVersions proxy testURL"

section \<open>The pool\<close>

record ProxyPool =
  proxies :: "Proxy list"
  TestURL :: string
  RateLimit :: int
  RetestDelay :: int
  AliveCount :: int
  AvailableCount :: int

definition NewProxyPool :: "string \<Rightarrow> int \<Rightarrow> int \<Rightarrow> ProxyPool" where
  "NewProxyPool testURL rateLimit retestDelay =
     \<lparr>proxies = [], TestURL = testURL, RateLimit = rateLimit, RetestDelay = retestDelay,
      AliveCount = 0, AvailableCount = 0\<rparr>"

subsection \<open>\<open>ProxyPool.GetAvailableProxy\<close>\<close>

text \<open>
  A pointer to a proxy of the pool is its index in \<open>proxies\<close>. The statement
  \<open>go pool.proxies[i].Get(pool.TestURL)\<close> is recorded as a launched goroutine; the scan
  does not wait for it, and the model reads the pool as it is when the scan starts.
  Each iteration calls \<open>time.Since\<close> twice, once in each condition (the left operand of
  \<open>&&\<close> is always evaluated), so iteration \<open>i\<close> takes the clock readings \<open>2 * i\<close> and
  \<open>2 * i + 1\<close>. The function has no assignment to a field of the pool or of a proxy; the pool
  is returned as the scan leaves it.
\<close>

datatype goroutine = GoGet nat string

function GetAvailableProxy_loop ::
  "(nat \<Rightarrow> time) \<Rightarrow> ProxyPool \<Rightarrow> nat \<Rightarrow> goroutine list
     \<Rightarrow> ProxyPool \<times> goroutine list \<times> (string + nat)"
where
  "GetAvailableProxy_loop clk pool i gos =
     (if i < length (proxies pool) then
        (let gos1 =
               (if Seconds (Since (clk (2 * i)) (lastRequest (proxies pool ! i)))
                     > float64 (of_int (RetestDelay pool))
                   \<and> \<not> Alive (proxies pool ! i)
                then gos @ [GoGet i (TestURL pool)] else gos)
         in if Seconds (Since (clk (2 * i + 1)) (lastRequest (proxies pool ! i)))
                  > float64 (of_int (RateLimit pool))
               \<and> Alive (proxies pool ! i)
            then (pool, gos1, Inr i)
            else GetAvailableProxy_loop clk pool (Suc i) gos1)
      else (pool, gos, Inl ''no proxies available''))"
  by pat_completeness auto
termination
  by (relation "measure (\<lambda>(clk, pool, i, gos). length (proxies pool) - i)") auto

declare GetAvailableProxy_loop.simps [simp del]

definition GetAvailableProxy ::
  "(nat \<Rightarrow> time) \<Rightarrow> ProxyPool \<Rightarrow> ProxyPool \<times> goroutine list \<times> (string + nat)" where
  "GetAvailableProxy clk pool = GetAvailableProxy_loop clk pool 0 []"

subsection \<open>\<open>ProxyPool.UpdateCounts\<close>\<close>

text \<open>
  \<open>time.Since\<close> is called once for each alive proxy, so the number of clock readings
  taken so far is the number of alive proxies counted so far.
\<close>

fun UpdateCounts_loop :: "(nat \<Rightarrow> time) \<Rightarrow> int \<Rightarrow> Proxy list \<Rightarrow> nat \<Rightarrow> int \<Rightarrow> int \<Rightarrow> int \<times> int" where
  "UpdateCounts_loop clk rateLimit [] k alive available = (alive, available)"
| "UpdateCounts_loop clk rateLimit (p # ps) k alive available =
     (if Alive p then
        (if Seconds (Since (clk k) (lastRequest p)) > float64 (of_int rateLimit)
         then UpdateCounts_loop clk rateLimit ps (Suc k) (alive + 1) (available + 1)
         else UpdateCounts_loop clk rateLimit ps (Suc k) (alive + 1) available)
      else UpdateCounts_loop clk rateLimit ps k alive available)"

definition UpdateCounts :: "(nat \<Rightarrow> time) \<Rightarrow> ProxyPool \<Rightarrow> ProxyPool" where
  "UpdateCounts clk pool =
     (case UpdateCounts_loop clk (RateLimit pool) (proxies pool) 0 0 0 of
        (alive, available) \<Rightarrow> pool\<lparr>AliveCount := alive, AvailableCount := available\<rparr>)"

subsection \<open>\<open>ProxyPool.LoadProxies\<close>\<close>

text \<open>
  The file system answers \<open>os.Open\<close> with an error or with a file; a file is the lines
  that \<open>scanner.Scan\<close> delivers before it stops, and the error \<open>scanner.Err\<close> reports
  afterwards, if any.
\<close>

datatype source = OpenError string | Opened "string list" "string option"

type_synonym filesystem = "string \<Rightarrow> source"

text \<open>\<open>strings.Split\<close> for a separator of one byte, which is how the source calls it.\<close>

fun Split :: "string \<Rightarrow> char \<Rightarrow> string list" where
  "Split [] sep = [[]]"
| "Split (c # s) sep =
     (if c = sep then [] # Split s sep
      else (case Split s sep of
              [] \<Rightarrow> [[c]]
            | part # parts \<Rightarrow> (c # part) # parts))"

text \<open>
  \<open>strconv.Atoi\<close> on a platform whose \<open>int\<close> has 64 bits. A string of 1 to 18
  bytes takes the fast path: an optional sign, then decimal digits, which cannot overflow. Any
  other string goes through \<open>ParseInt\<close> and \<open>ParseUint\<close> in base 10:
  \<open>ParseUint\<close> reads the bytes from the left and stops at the first byte that is not a
  digit, with a syntax error, or at the first digit that takes the value beyond
  \<open>uint64\<close>, with the largest \<open>uint64\<close> and a range error; \<open>ParseInt\<close> gives 0
  on a syntax error and the nearest bound of \<open>int64\<close> beyond the range.
\<close>

datatype num_error = ErrSyntax | ErrRange

definition is_digit :: "char \<Rightarrow> bool" where
  "is_digit c = (48 \<le> (of_char c :: nat) \<and> (of_char c :: nat) \<le> 57)"

definition maxUint64 :: int where
  "maxUint64 = 18446744073709551615"

fun fast_digits :: "int \<Rightarrow> string \<Rightarrow> int option" where
  "fast_digits n [] = Some n"
| "fast_digits n (ch # s) =
     (if is_digit ch then fast_digits (n * 10 + (of_char ch - 48)) s else None)"

fun ParseUint_loop :: "int \<Rightarrow> string \<Rightarrow> int \<times> num_error option" where
  "ParseUint_loop n [] = (n, None)"
| "ParseUint_loop n (c # s) =
     (if \<not> is_digit c then (0, Some ErrSyntax)
      else if n \<ge> maxUint64 div 10 + 1 then (maxUint64, Some ErrRange)
      else if n * 10 + (of_char c - 48) > maxUint64 then (maxUint64, Some ErrRange)
      else ParseUint_loop (n * 10 + (of_char c - 48)) s)"

definition ParseUint :: "string \<Rightarrow> int \<times> num_error option" where
  "ParseUint s = (if s = [] then (0, Some ErrSyntax) else ParseUint_loop 0 s)"

definition ParseInt :: "string \<Rightarrow> int \<times> num_error option" where
  "ParseInt s0 =
     (case s0 of
        [] \<Rightarrow> (0, Some ErrSyntax)
      | c # rest \<Rightarrow>
          (let neg = (c = CHR ''-'');
               s = (if c = CHR ''+'' \<or> c = CHR ''-'' then rest else s0)
           in case ParseUint s of
                (un, err) \<Rightarrow>
                  if err = Some ErrSyntax then (0, err)
                  else if \<not> neg \<and> un \<ge> 9223372036854775808
                    then (9223372036854775807, Some ErrRange)
                  else if neg \<and> un > 9223372036854775808
                    then (- 9223372036854775808, Some ErrRange)
                  else (if neg then - un else un, None)))"

definition Atoi :: "string \<Rightarrow> int \<times> num_error option" where
  "Atoi s0 =
     (if 0 < length s0 \<and> length s0 < 19 then
        (case s0 of
           [] \<Rightarrow> (0, Some ErrSyntax)
         | c # rest \<Rightarrow>
             (let signed = (c = CHR ''-'' \<or> c = CHR ''+'');
                  s = (if signed then rest else s0)
              in if signed \<and> s = [] then (0, Some ErrSyntax)
                 else (case fast_digits 0 s of
                         None \<Rightarrow> (0, Some ErrSyntax)
                       | Some n \<Rightarrow> (if c = CHR ''-'' then - n else n, None))))
      else ParseInt s0)"

text \<open>
  The zero value of \<open>Proxy\<close> with the two fields the composite literal sets.
\<close>

definition new_Proxy :: "string \<Rightarrow> int \<Rightarrow> Proxy" where
  "new_Proxy ip0 port0 =
     \<lparr>URL = [], Alive = False, protocol = [], ip = ip0, port = port0, lastRequest = zeroTime,
      dial = None, transport = None, client = None\<rparr>"

text \<open>
  The scanning loop. \<open>line[0]\<close> and \<open>line[1]\<close> are index expressions on the slice that
  \<open>strings.Split\<close> returned: an index out of range is a run-time panic. The error of
  \<open>strconv.Atoi\<close> is discarded by the source. The loop collects the candidates; the
  goroutine it starts for each of them is run by \<open>negotiate\<close> below.
\<close>

fun scan_lines :: "string list \<Rightarrow> Proxy list \<Rightarrow> string + Proxy list" where
  "scan_lines [] candidates = Inr candidates"
| "scan_lines (text # rest) candidates =
     (case Split text CHR '':'' of
        [] \<Rightarrow> Inl ''index out of range [0] with length 0''
      | [ip0] \<Rightarrow> Inl ''index out of range [1] with length 1''
      | ip0 # field1 # others \<Rightarrow>
          scan_lines rest (candidates @ [new_Proxy ip0 (fst (Atoi field1))]))"

text \<open>
  Fan-out and fan-in: candidate \<open>k\<close> is negotiated by its own goroutine, which reads its own
  clock \<open>gclk k\<close> and writes only its own proxy; \<open>wg.Wait\<close> returns when all of them
  have finished.
\<close>

definition negotiate :: "network \<Rightarrow> (nat \<Rightarrow> nat \<Rightarrow> time) \<Rightarrow> string \<Rightarrow> Proxy list \<Rightarrow> Proxy list" where
  "negotiate net gclk testURL candidates =
     map (\<lambda>(k, p). fst (Create net (gclk k) p testURL)) (enumerate 0 candidates)"

fun admit :: "Proxy list \<Rightarrow> Proxy list \<Rightarrow> Proxy list" where
  "admit [] pool_proxies = pool_proxies"
| "admit (p # ps) pool_proxies =
     (if Alive p then admit ps (pool_proxies @ [p]) else admit ps pool_proxies)"

text \<open>
  How a call of \<open>LoadProxies\<close> ends: it returns, with the pool it leaves and its error
  result; it panics; or \<open>log.Fatal\<close> prints the error and ends the process with
  \<open>os.Exit(1)\<close>.
\<close>

datatype loaded =
    Returned (pool_left: ProxyPool) (error_result: "string option")
  | Panicked string
  | Exited string

definition LoadProxies ::
  "filesystem \<Rightarrow> network \<Rightarrow> (nat \<Rightarrow> nat \<Rightarrow> time) \<Rightarrow> (nat \<Rightarrow> time) \<Rightarrow> ProxyPool \<Rightarrow> string \<Rightarrow> loaded"
where
  "LoadProxies fs net gclk clk pool path =
     (case fs path of
        OpenError err \<Rightarrow> Exited err
      | Opened lines scanErr \<Rightarrow>
          (case scan_lines lines [] of
             Inl msg \<Rightarrow> Panicked msg
           | Inr candidates \<Rightarrow>
               (let pool1 = pool\<lparr>proxies :=
                              admit (negotiate net gclk (TestURL pool) candidates) (proxies pool)\<rparr>
                in case scanErr of
                     Some err \<Rightarrow> Returned pool1 (Some err)
                   | None \<Rightarrow> Returned (UpdateCounts clk pool1) None)))"

section \<open>Notions used in the statements\<close>

text \<open>A fetch succeeds when the response has status 200 and its body was read.\<close>

fun fetch_ok :: "response \<Rightarrow> bool" where
  "fetch_ok (Response StatusCode (ReadAll buf)) = (StatusCode = 200)"
| "fetch_ok (Response StatusCode (ReadError err)) = False"
| "fetch_ok (ClientError err) = False"

text \<open>
  The connection URL that \<open>Create\<close> composes for a version, and the client it binds to a
  connection URL.
\<close>

definition socks_url :: "int \<Rightarrow> Proxy \<Rightarrow> string" where
  "socks_url version proxy =
     ''socks'' @ show_int version @ ''://'' @ ip proxy @ '':'' @ show_int (port proxy)"

definition bound_client :: "string \<Rightarrow> Client" where
  "bound_client url =
     \<lparr>Transport = Some \<lparr>Dial = Some (url @ ''?timeout=20s''), DisableKeepAlives = True\<rparr>,
      Timeout = 20 * Second\<rparr>"

definition negotiation_ok :: "network \<Rightarrow> (nat \<Rightarrow> time) \<Rightarrow> Proxy \<Rightarrow> string \<Rightarrow> bool" where
  "negotiation_ok net clk proxy testURL =
     (fetch_ok (client_Get net (bound_client (socks_url 5 proxy)) testURL (clk 0)) \<or>
      fetch_ok (client_Get net (bound_client (socks_url 4 proxy)) testURL (clk 1)))"

text \<open>The calls of \<open>Get\<close> on a client among the effects, in order.\<close>

fun requests :: "event list \<Rightarrow> (Client \<times> string) list" where
  "requests [] = []"
| "requests (HttpGet c url # evs) = (c, url) # requests evs"
| "requests (ev # evs) = requests evs"

text \<open>
  The two conditions of the scan, for the proxy at index \<open>i\<close>, each at the clock reading
  the scan takes for it.
\<close>

definition retest_due :: "(nat \<Rightarrow> time) \<Rightarrow> ProxyPool \<Rightarrow> nat \<Rightarrow> bool" where
  "retest_due clk pool i =
     (Seconds (Since (clk (2 * i)) (lastRequest (proxies pool ! i)))
        > float64 (of_int (RetestDelay pool))
      \<and> \<not> Alive (proxies pool ! i))"

definition selectable :: "(nat \<Rightarrow> time) \<Rightarrow> ProxyPool \<Rightarrow> nat \<Rightarrow> bool" where
  "selectable clk pool i =
     (Seconds (Since (clk (2 * i + 1)) (lastRequest (proxies pool ! i)))
        > float64 (of_int (RateLimit pool))
      \<and> Alive (proxies pool ! i))"

text \<open>The number of proxies the scan has visited when it ends with result \<open>r\<close>.\<close>

definition scan_end :: "ProxyPool \<Rightarrow> string + nat \<Rightarrow> nat" where
  "scan_end pool r = (case r of Inr k \<Rightarrow> Suc k | Inl msg \<Rightarrow> length (proxies pool))"

text \<open>The candidate built from a record that has a colon.\<close>

definition candidate :: "string \<Rightarrow> Proxy" where
  "candidate text =
     new_Proxy (Split text CHR '':'' ! 0) (fst (Atoi (Split text CHR '':'' ! 1)))"

definition returns_error :: "loaded \<Rightarrow> bool" where
  "returns_error r = (case r of Returned pool (Some err) \<Rightarrow> True | _ \<Rightarrow> False)"

section \<open>Fetches that run at the same time\<close>

text \<open>
  \<open>Get\<close> reads of its proxy only the client, which no fetch writes, so the effects of a
  call do not depend on what another goroutine has written to \<open>Alive\<close> and
  \<open>lastRequest\<close> in the meantime. Two calls on one proxy that run at the same time
  therefore perform the effects of the one and of the other, each in its own order, merged in
  some order: \<open>interleaving tr xs ys\<close> says that \<open>tr\<close> is such a merge of \<open>xs\<close> and
  \<open>ys\<close>. Each write of a field is taken as one step, so a merge is an execution in which
  the writes are atomic. \<open>run_events\<close> carries out the writes of a sequence of effects on
  a proxy; the last write of a field is the one that stays.
\<close>

fun apply_event :: "event \<Rightarrow> Proxy \<Rightarrow> Proxy" where
  "apply_event (WriteLastRequest t) proxy = proxy\<lparr>lastRequest := t\<rparr>"
| "apply_event (WriteAlive b) proxy = proxy\<lparr>Alive := b\<rparr>"
| "apply_event (HttpGet c url) proxy = proxy"
| "apply_event (Println s) proxy = proxy"

fun run_events :: "event list \<Rightarrow> Proxy \<Rightarrow> Proxy" where
  "run_events [] proxy = proxy"
| "run_events (ev # evs) proxy = run_events evs (apply_event ev proxy)"

fun interleaving :: "'a list \<Rightarrow> 'a list \<Rightarrow> 'a list \<Rightarrow> bool" where
  "interleaving [] xs ys = (xs = [] \<and> ys = [])"
| "interleaving (e # tr) xs ys =
     ((case xs of [] \<Rightarrow> False | x # xs' \<Rightarrow> e = x \<and> interleaving tr xs' ys) \<or>
      (case ys of [] \<Rightarrow> False | y # ys' \<Rightarrow> e = y \<and> interleaving tr xs ys'))"

text \<open>The value of the last write of each of the two fields in a sequence of effects.\<close>

fun last_Alive_written :: "event list \<Rightarrow> bool option" where
  "last_Alive_written [] = None"
| "last_Alive_written (ev # evs) =
     (case last_Alive_written evs of
        Some b \<Rightarrow> Some b
      | None \<Rightarrow> (case ev of WriteAlive b \<Rightarrow> Some b | _ \<Rightarrow> None))"

fun last_lastRequest_written :: "event list \<Rightarrow> time option" where
  "last_lastRequest_written [] = None"
| "last_lastRequest_written (ev # evs) =
     (case last_lastRequest_written evs of
        Some t \<Rightarrow> Some t
      | None \<Rightarrow> (case ev of WriteLastRequest t \<Rightarrow> Some t | _ \<Rightarrow> None))"

section \<open>Concrete inputs\<close>

text \<open>A clock that stands still, for one thread and for every goroutine.\<close>

definition steady :: "time \<Rightarrow> nat \<Rightarrow> time" where
  "steady t k = t"

definition all_steady :: "time \<Rightarrow> nat \<Rightarrow> nat \<Rightarrow> time" where
  "all_steady t k j = t"

text \<open>
  Networks on which every URL parses: one on which exactly one connection URL works, and one
  on which every request fails before a given time and succeeds from then on.
\<close>

definition answer_through :: "string \<Rightarrow> Client \<Rightarrow> string \<Rightarrow> time \<Rightarrow> response" where
  "answer_through url c target now =
     (if c = bound_client url then Response 200 (ReadAll ''ok'')
      else ClientError ''connection refused'')"

definition parses :: "string \<Rightarrow> string option" where
  "parses url = None"

definition only_through :: "string \<Rightarrow> network" where
  "only_through url = \<lparr>NewRequest = parses, Do = answer_through url\<rparr>"

definition answer_from :: "time \<Rightarrow> Client \<Rightarrow> string \<Rightarrow> time \<Rightarrow> response" where
  "answer_from t c target now =
     (if t \<le> now then Response 200 (ReadAll ''ok'')
      else ClientError ''i/o timeout'')"

definition up_from :: "time \<Rightarrow> network" where
  "up_from t = \<lparr>NewRequest = parses, Do = answer_from t\<rparr>"

definition a_file :: "string list \<Rightarrow> string option \<Rightarrow> filesystem" where
  "a_file lines err path = Opened lines err"

definition no_file :: "string \<Rightarrow> filesystem" where
  "no_file err path = OpenError err"

text \<open>
  Pools with \<open>rateLimit = 10\<close> and \<open>retestDelay = 300\<close> whose proxies made their last
  attempt at time 0.
\<close>

definition one_proxy_pool :: "bool \<Rightarrow> ProxyPool" where
  "one_proxy_pool alive =
     \<lparr>proxies = [(new_Proxy ''10.0.0.1'' 1080)\<lparr>Alive := alive, lastRequest := 0\<rparr>],
      TestURL = ''http://example.com'', RateLimit = 10, RetestDelay = 300,
      AliveCount = 0, AvailableCount = 0\<rparr>"


definition created_proxy :: Proxy where
  "created_proxy =
     (new_Proxy ''10.0.0.1'' 1080)\<lparr>client := Some (bound_client ''socks5://10.0.0.1:1080'')\<rparr>"

text \<open>
  Two fetches through \<open>created_proxy\<close> on a network that is up from time 2: one stamped
  at time 1, which fails, and one stamped at time 2, which succeeds. In this merge of their
  effects the first is still waiting for its answer when the second starts and succeeds; the
  failure of the first is written after the success of the second.
\<close>

definition late_failure :: "event list" where
  "late_failure =
     [WriteLastRequest 1,
      HttpGet (bound_client ''socks5://10.0.0.1:1080'') ''http://example.com/page'',
      WriteLastRequest 2,
      HttpGet (bound_client ''socks5://10.0.0.1:1080'') ''http://example.com'',
      WriteAlive True,
      WriteAlive False,
      Println ''i/o timeout'']"

section \<open>Rounding\<close>

lemma rne_of_int [simp]: "rne (of_int k) = k"
  by (simp add: rne_def)

lemma rne_lower: "\<lfloor>q\<rfloor> \<le> rne q"
  by (simp add: rne_def Let_def)

lemma rne_upper: "rne q \<le> \<lfloor>q\<rfloor> + 1"
  by (simp add: rne_def Let_def)

lemma rne_mono:
  assumes "q \<le> q'"
  shows "rne q \<le> rne q'"
proof (cases "\<lfloor>q\<rfloor> = \<lfloor>q'\<rfloor>")
  case False
  moreover from assms have "\<lfloor>q\<rfloor> \<le> \<lfloor>q'\<rfloor>" by (rule floor_mono)
  ultimately have "\<lfloor>q\<rfloor> + 1 \<le> \<lfloor>q'\<rfloor>" by simp
  with rne_upper [of q] rne_lower [of q'] show ?thesis by linarith
next
  case True
  define n where "n = \<lfloor>q\<rfloor>"
  define r where "r = q - of_int n"
  define r' where "r' = q' - of_int n"
  have rr: "r \<le> r'" using assms by (simp add: r_def r'_def)
  have q: "rne q = (if r < 1 / 2 then n else if 1 / 2 < r then n + 1
                    else if even n then n else n + 1)"
    by (simp add: rne_def Let_def n_def r_def)
  have q': "rne q' = (if r' < 1 / 2 then n else if 1 / 2 < r' then n + 1
                    else if even n then n else n + 1)"
    using True by (simp add: rne_def Let_def n_def r'_def)
  consider "r < 1 / 2" | "r = 1 / 2" | "1 / 2 < r" by linarith
  then show ?thesis
  proof cases
    case 1
    then have "rne q = n" by (simp add: q)
    moreover have "n \<le> rne q'" by (simp add: q')
    ultimately show ?thesis by simp
  next
    case 2
    with rr consider "r' = 1 / 2" | "1 / 2 < r'" by linarith
    then show ?thesis
    proof cases
      case 1
      with 2 show ?thesis by (simp add: q q')
    next
      case b: 2
      then have "rne q' = n + 1" by (simp add: q')
      moreover have "rne q \<le> n + 1" by (simp add: q)
      ultimately show ?thesis by simp
    qed
  next
    case 3
    with rr have "1 / 2 < r'" by linarith
    with 3 show ?thesis by (simp add: q q')
  qed
qed

lemma ilog2_bounds:
  assumes "0 < x"
  shows "2 powi (ilog2 x) \<le> x \<and> x < 2 powi (ilog2 x + 1)"
proof -
  obtain p q where pq: "quotient_of x = (p, q)" by (cases "quotient_of x")
  then have q: "0 < q" by (rule quotient_of_denom_pos)
  from pq have x: "x = of_int p / of_int q" by (rule quotient_of_div)
  with assms q have p: "0 < p" by (simp add: zero_less_divide_iff)
  let ?bp = "bitlen p" and ?bq = "bitlen q"
  have bp1: "1 \<le> ?bp" using p bitlen_eq_zero_iff [of p] bitlen_nonneg [of p] by linarith
  have bq1: "1 \<le> ?bq" using q bitlen_eq_zero_iff [of q] bitlen_nonneg [of q] by linarith
  have int_pow: "(of_int (2 ^ n) :: rat) = 2 ^ n" for n by simp
  from bitlen_bounds [OF p] have "2 ^ nat (?bp - 1) \<le> p" and "p < 2 ^ nat ?bp" by auto
  then have "(of_int (2 ^ nat (?bp - 1)) :: rat) \<le> of_int p"
        and "(of_int p :: rat) < of_int (2 ^ nat ?bp)"
    by (simp_all only: of_int_le_iff of_int_less_iff)
  then have plo: "(2::rat) powi (?bp - 1) \<le> of_int p" and phi: "of_int p < (2::rat) powi ?bp"
    using bp1
    by (simp_all only: int_pow power_int_nonneg_exp [of "?bp - 1"] power_int_nonneg_exp [of ?bp])
  from bitlen_bounds [OF q] have "2 ^ nat (?bq - 1) \<le> q" and "q < 2 ^ nat ?bq" by auto
  then have "(of_int (2 ^ nat (?bq - 1)) :: rat) \<le> of_int q"
        and "(of_int q :: rat) < of_int (2 ^ nat ?bq)"
    by (simp_all only: of_int_le_iff of_int_less_iff)
  then have qlo: "(2::rat) powi (?bq - 1) \<le> of_int q" and qhi: "of_int q < (2::rat) powi ?bq"
    using bq1
    by (simp_all only: int_pow power_int_nonneg_exp [of "?bq - 1"] power_int_nonneg_exp [of ?bq])
  have qpos: "(0::rat) < of_int q" using q by simp
  have "x < 2 powi ?bp / 2 powi (?bq - 1)"
    unfolding x using phi qlo p
    by (intro frac_less) simp_all
  also have "\<dots> = 2 powi (?bp - ?bq + 1)"
    by (simp add: power_int_diff [symmetric] algebra_simps)
  finally have hi: "x < 2 powi (?bp - ?bq + 1)" .
  have "2 powi (?bp - 1) / 2 powi ?bq < x"
    unfolding x using plo qhi qpos
    by (intro frac_less2) simp_all
  moreover have "(2::rat) powi (?bp - 1) / 2 powi ?bq = 2 powi (?bp - ?bq - 1)"
    by (simp add: power_int_diff [symmetric] algebra_simps)
  ultimately have lo: "2 powi (?bp - ?bq - 1) < x" by simp
  show ?thesis
  proof (cases "2 powi (?bp - ?bq) \<le> x")
    case True
    then have "ilog2 x = ?bp - ?bq" by (simp add: ilog2_def pq)
    with True hi show ?thesis by simp
  next
    case False
    then have "ilog2 x = ?bp - ?bq - 1" by (simp add: ilog2_def pq)
    with False lo show ?thesis by (simp add: less_imp_le)
  qed
qed

lemma ilog2_mono:
  assumes "0 < x" and "x \<le> y"
  shows "ilog2 x \<le> ilog2 y"
proof -
  from assms have "0 < y" by simp
  from ilog2_bounds [OF assms(1)] ilog2_bounds [OF this] assms(2)
  have "(2::rat) powi (ilog2 x) < 2 powi (ilog2 y + 1)" by simp
  then have "ilog2 x < ilog2 y + 1"
    using power_int_increasing [of "ilog2 y + 1" "ilog2 x" "2::rat"]
    by (cases "ilog2 x < ilog2 y + 1") auto
  then show ?thesis by simp
qed

lemma round_pos_bounds:
  assumes "0 < x"
  shows "2 powi (ilog2 x) \<le> round_pos x \<and> round_pos x \<le> 2 powi (ilog2 x + 1)"
proof -
  define e where "e = ilog2 x"
  define u :: rat where "u = 2 powi (e - 52)"
  have u: "0 < u" by (simp add: u_def)
  have lo: "2 powi e = 2 ^ 52 * u" and hi: "2 powi (e + 1) = 2 ^ 53 * u"
    by (simp_all add: u_def power_int_diff power_int_add)
  from ilog2_bounds [OF assms] have "2 ^ 52 * u \<le> x" and "x < 2 ^ 53 * u"
    by (simp_all add: e_def [symmetric] lo hi)
  then have "of_int (2 ^ 52) \<le> x / u" and "x / u \<le> of_int (2 ^ 53)"
    using u by (simp_all add: pos_le_divide_eq pos_divide_le_eq less_imp_le)
  then have "rne (of_int (2 ^ 52)) \<le> rne (x / u)" and "rne (x / u) \<le> rne (of_int (2 ^ 53))"
    by (simp_all only: rne_mono)
  then have "2 ^ 52 \<le> rne (x / u)" and "rne (x / u) \<le> 2 ^ 53"
    by (simp_all only: rne_of_int)
  then have "(of_int (2 ^ 52) :: rat) \<le> of_int (rne (x / u))"
        and "(of_int (rne (x / u)) :: rat) \<le> of_int (2 ^ 53)"
    by (simp_all only: of_int_le_iff)
  then have "2 ^ 52 * u \<le> of_int (rne (x / u)) * u" and "of_int (rne (x / u)) * u \<le> 2 ^ 53 * u"
    using u by simp_all
  then show ?thesis
    by (simp add: round_pos_def Let_def e_def [symmetric] u_def [symmetric] lo hi)
qed

lemma round_pos_mono:
  assumes "0 < x" and "x \<le> y"
  shows "round_pos x \<le> round_pos y"
proof (cases "ilog2 x = ilog2 y")
  case True
  define u :: rat where "u = 2 powi (ilog2 y - 52)"
  have u: "0 < u" by (simp add: u_def)
  from assms(2) u have "x / u \<le> y / u" by (simp add: divide_right_mono)
  then have "rne (x / u) \<le> rne (y / u)" by (rule rne_mono)
  then have "(of_int (rne (x / u)) :: rat) \<le> of_int (rne (y / u))" by simp
  then have "of_int (rne (x / u)) * u \<le> of_int (rne (y / u)) * u" using u by simp
  then show ?thesis by (simp add: round_pos_def Let_def True u_def [symmetric])
next
  case False
  from assms have y: "0 < y" by simp
  from False ilog2_mono [OF assms] have "ilog2 x + 1 \<le> ilog2 y" by simp
  then have "(2::rat) powi (ilog2 x + 1) \<le> 2 powi (ilog2 y)"
    by (intro power_int_increasing) simp_all
  with round_pos_bounds [OF assms(1)] round_pos_bounds [OF y] show ?thesis by simp
qed

lemma round_pos_pos:
  assumes "0 < x"
  shows "0 < round_pos x"
proof -
  have "(0::rat) < 2 powi (ilog2 x)" by simp
  also have "\<dots> \<le> round_pos x" using round_pos_bounds [OF assms] by simp
  finally show ?thesis .
qed

text \<open>Rounding to \<open>float64\<close> keeps the order.\<close>

lemma float64_mono:
  assumes "x \<le> y"
  shows "float64 x \<le> float64 y"
proof -
  consider "x < 0" "y < 0" | "x < 0" "y = 0" | "x < 0" "0 < y" | "x = 0" "y = 0"
    | "x = 0" "0 < y" | "0 < x" "0 < y"
    using assms by (cases "x < 0"; cases "y < 0"; cases "x = 0"; cases "y = 0") auto
  then show ?thesis
  proof cases
    case 1
    then have "round_pos (- y) \<le> round_pos (- x)" using assms by (intro round_pos_mono) simp_all
    with 1 show ?thesis by (simp add: float64_def)
  next
    case 2
    then show ?thesis using round_pos_pos [of "- x"] by (simp add: float64_def)
  next
    case 3
    then show ?thesis using round_pos_pos [of "- x"] round_pos_pos [of y] by (simp add: float64_def)
  next
    case 4
    then show ?thesis by simp
  next
    case 5
    then show ?thesis using round_pos_pos [of y] by (simp add: float64_def)
  next
    case 6
    then show ?thesis using round_pos_mono [of x y] assms by (simp add: float64_def)
  qed
qed

lemma round_pos_of_int:
  assumes "0 < n" and "n < 2 ^ 53"
  shows "round_pos (of_int n) = of_int n"
proof -
  define e where "e = ilog2 (of_int n)"
  have pos: "(0::rat) < of_int n" using assms by simp
  from ilog2_bounds [OF pos] have lo: "2 powi e \<le> (of_int n :: rat)" by (simp add: e_def)
  have "(of_int n :: rat) < of_int (2 ^ 53)" using assms(2) by (simp only: of_int_less_iff)
  then have "(2::rat) powi e < 2 powi 53" using lo by simp
  then have e53: "e < 53"
    using power_int_increasing [of 53 e "2::rat"] by (cases "e < 53") auto
  define k where "k = nat (52 - e)"
  have u: "(2::rat) powi (e - 52) = 1 / 2 ^ k"
    using e53 by (simp add: k_def power_int_def divide_simps)
  then have "of_int n / (2::rat) powi (e - 52) = of_int (n * 2 ^ k)" by simp
  then have "rne (of_int n / (2::rat) powi (e - 52)) = n * 2 ^ k" by (simp only: rne_of_int)
  then show ?thesis
    using u by (simp add: round_pos_def Let_def e_def [symmetric])
qed

text \<open>An integer below \<open>2 ^ 53\<close> in magnitude is a \<open>float64\<close>.\<close>

lemma float64_of_int:
  assumes "\<bar>n\<bar> < 2 ^ 53"
  shows "float64 (of_int n) = of_int n"
proof -
  consider "n = 0" | "0 < n" | "n < 0" by linarith
  then show ?thesis
  proof cases
    case 1
    then show ?thesis by (simp add: float64_def)
  next
    case 2
    with assms show ?thesis using round_pos_of_int [of n] by (simp add: float64_def)
  next
    case 3
    with assms have "round_pos (of_int (- n)) = of_int (- n)"
      by (intro round_pos_of_int) simp_all
    with 3 show ?thesis by (simp add: float64_def)
  qed
qed

lemma float64_1: "float64 1 = 1"
  using float64_of_int [of 1] by simp

lemma float64_0: "float64 0 = 0"
  by (simp add: float64_def)

lemma float64_minus_1: "float64 (- 1) = - 1"
  using float64_of_int [of "- 1"] by simp

section \<open>Seconds in \<open>float64\<close> and exact seconds\<close>

lemma Sub_range: "minDuration \<le> Sub t u \<and> Sub t u \<le> maxDuration"
  by (simp add: Sub_def Let_def minDuration_def maxDuration_def)

lemma Since_range: "minDuration \<le> Since now t \<and> Since now t \<le> maxDuration"
  unfolding Since_def by (rule Sub_range)

lemma sdiv_smod_Second:
  "d = (d sdiv Second) * Second + d smod Second \<and>
   \<bar>d smod Second\<bar> < Second \<and>
   \<bar>d sdiv Second\<bar> * Second \<le> \<bar>d\<bar>"
proof -
  define k where "k = \<bar>d\<bar>"
  define q where "q = k div 1000000000"
  define r where "r = k mod 1000000000"
  have k: "k = q * 1000000000 + r" and r: "0 \<le> r" "r < 1000000000"
    by (simp_all add: q_def r_def)
  have q: "0 \<le> q" by (simp add: q_def k_def pos_imp_zdiv_nonneg_iff)
  have sd: "d sdiv Second = sgn d * q" and sm: "d smod Second = sgn d * r"
    by (simp_all add: Second_def signed_divide_int_def signed_modulo_int_def q_def r_def k_def)
  consider "d < 0" | "d = 0" | "0 < d" by linarith
  then show ?thesis
  proof cases
    case 1
    then have "k = - d" "sgn d = - 1" by (simp_all add: k_def)
    with k r q show ?thesis unfolding sd sm by (simp add: Second_def)
  next
    case 2
    then show ?thesis by (simp add: Second_def)
  next
    case 3
    then have "k = d" "sgn d = 1" by (simp_all add: k_def)
    with k r q show ?thesis unfolding sd sm by (simp add: Second_def)
  qed
qed

lemma Seconds_split:
  assumes "minDuration \<le> d" and "d \<le> maxDuration"
  shows "Seconds d =
           float64 (of_int (d sdiv Second) + float64 (of_int (d smod Second) / 1000000000))"
proof -
  from sdiv_smod_Second [of d] have
    n: "\<bar>d smod Second\<bar> < 1000000000" and s: "\<bar>d sdiv Second\<bar> * 1000000000 \<le> \<bar>d\<bar>"
    by (simp_all add: Second_def)
  from s assms have "\<bar>d sdiv Second\<bar> < 2 ^ 53" by (simp add: minDuration_def maxDuration_def)
  then have a: "float64 (of_int (d sdiv Second)) = of_int (d sdiv Second)"
    by (rule float64_of_int)
  from n have "\<bar>d smod Second\<bar> < 2 ^ 53" by simp
  then have b: "float64 (of_int (d smod Second)) = of_int (d smod Second)"
    by (rule float64_of_int)
  show ?thesis by (simp add: Seconds_def Let_def a b)
qed

lemma fraction_bounds:
  fixes n :: int
  assumes "\<bar>n\<bar> < 1000000000"
  shows "- 1 \<le> float64 (of_int n / 1000000000)" and "float64 (of_int n / 1000000000) \<le> 1"
    and "n \<le> 0 \<Longrightarrow> float64 (of_int n / 1000000000) \<le> 0"
    and "0 \<le> n \<Longrightarrow> 0 \<le> float64 (of_int n / 1000000000)"
proof -
  have "- 1 \<le> (of_int n :: rat) / 1000000000" using assms by simp
  then have "float64 (- 1) \<le> float64 (of_int n / 1000000000)" by (rule float64_mono)
  then show "- 1 \<le> float64 (of_int n / 1000000000)" by (simp add: float64_minus_1)
  have "(of_int n :: rat) / 1000000000 \<le> 1" using assms by simp
  then have "float64 (of_int n / 1000000000) \<le> float64 1" by (rule float64_mono)
  then show "float64 (of_int n / 1000000000) \<le> 1" by (simp add: float64_1)
  show "float64 (of_int n / 1000000000) \<le> 0" if "n \<le> 0"
  proof -
    from that have "(of_int n :: rat) / 1000000000 \<le> 0" by simp
    then have "float64 (of_int n / 1000000000) \<le> float64 0" by (rule float64_mono)
    then show ?thesis by (simp add: float64_0)
  qed
  show "0 \<le> float64 (of_int n / 1000000000)" if "0 \<le> n"
  proof -
    from that have "0 \<le> (of_int n :: rat) / 1000000000" by simp
    then have "float64 0 \<le> float64 (of_int n / 1000000000)" by (rule float64_mono)
    then show ?thesis by (simp add: float64_0)
  qed
qed

text \<open>
  A duration of at most \<open>R\<close> seconds is at most \<open>float64(R)\<close> seconds in
  \<open>float64\<close>: where the code finds the seconds greater than \<open>float64(R)\<close>, the
  duration is longer than \<open>R\<close> seconds.
\<close>

lemma Seconds_le:
  assumes "minDuration \<le> d" and "d \<le> maxDuration" and "d \<le> R * Second"
  shows "Seconds d \<le> float64 (of_int R)"
proof -
  define sec where "sec = d sdiv Second"
  define nsec where "nsec = d smod Second"
  define c where "c = float64 (of_int nsec / 1000000000)"
  from sdiv_smod_Second [of d] have
    d: "d = sec * 1000000000 + nsec" and n: "\<bar>nsec\<bar> < 1000000000"
    by (simp_all add: sec_def nsec_def Second_def)
  have S: "Seconds d = float64 (of_int sec + c)"
    using Seconds_split [OF assms(1,2)] by (simp add: sec_def nsec_def c_def)
  have "of_int sec + c \<le> (of_int R :: rat)"
  proof (cases "nsec \<le> 0")
    case True
    with d n assms(3) have "sec \<le> R" by (simp add: Second_def)
    then have "(of_int sec :: rat) \<le> of_int R" by simp
    moreover have "c \<le> 0" unfolding c_def using n True by (rule fraction_bounds(3))
    ultimately show ?thesis by simp
  next
    case False
    with d assms(3) have "sec + 1 \<le> R" by (simp add: Second_def)
    then have "(of_int (sec + 1) :: rat) \<le> of_int R" by (simp only: of_int_le_iff)
    moreover have "c \<le> 1" unfolding c_def using n by (rule fraction_bounds(2))
    ultimately show ?thesis by simp
  qed
  then show ?thesis unfolding S by (rule float64_mono)
qed

text \<open>
  A duration of at least \<open>R + 1\<close> seconds, for a non-negative \<open>R\<close>, is more than
  \<open>float64(R)\<close> seconds in \<open>float64\<close>.
\<close>

lemma Seconds_gt:
  assumes "minDuration \<le> d" and "d \<le> maxDuration" and "(R + 1) * Second \<le> d" and "0 \<le> R"
  shows "float64 (of_int R) < Seconds d"
proof -
  define sec where "sec = d sdiv Second"
  define nsec where "nsec = d smod Second"
  define c where "c = float64 (of_int nsec / 1000000000)"
  from sdiv_smod_Second [of d] have
    d: "d = sec * 1000000000 + nsec" and n: "\<bar>nsec\<bar> < 1000000000"
    by (simp_all add: sec_def nsec_def Second_def)
  have S: "Seconds d = float64 (of_int sec + c)"
    using Seconds_split [OF assms(1,2)] by (simp add: sec_def nsec_def c_def)
  from assms(2,3) have R: "R + 1 < 2 ^ 53" by (simp add: Second_def maxDuration_def)
  have "(of_int (R + 1) :: rat) \<le> of_int sec + c"
  proof (cases "0 \<le> nsec")
    case True
    with d n assms(3) have "R + 1 \<le> sec" by (simp add: Second_def)
    then have "(of_int (R + 1) :: rat) \<le> of_int sec" by (simp only: of_int_le_iff)
    moreover have "0 \<le> c" unfolding c_def using n True by (rule fraction_bounds(4))
    ultimately show ?thesis by simp
  next
    case False
    with d assms(3) have "R + 2 \<le> sec" by (simp add: Second_def)
    then have "(of_int (R + 2) :: rat) \<le> of_int sec" by (simp only: of_int_le_iff)
    moreover have "- 1 \<le> c" unfolding c_def using n by (rule fraction_bounds(1))
    ultimately show ?thesis by simp
  qed
  then have "float64 (of_int (R + 1)) \<le> Seconds d" unfolding S by (rule float64_mono)
  moreover have "float64 (of_int (R + 1)) = of_int (R + 1)"
    using R assms(4) by (intro float64_of_int) simp
  moreover have "float64 (of_int R) = of_int R"
    using R assms(4) by (intro float64_of_int) simp
  ultimately show ?thesis by simp
qed

lemma exact_seconds_le_iff: "exact_seconds d \<le> of_int R \<longleftrightarrow> d \<le> R * Second"
proof -
  have "exact_seconds d \<le> of_int R \<longleftrightarrow> (of_int d :: rat) \<le> of_int (R * 1000000000)"
    by (simp add: exact_seconds_def pos_divide_le_eq)
  also have "\<dots> \<longleftrightarrow> d \<le> R * 1000000000" by (simp only: of_int_le_iff)
  finally show ?thesis by (simp add: Second_def)
qed

lemma float_check_implies_exact:
  assumes "float64 (of_int R) < Seconds (Since now t)"
  shows "of_int R < exact_seconds (Since now t)"
proof (rule ccontr)
  assume "\<not> of_int R < exact_seconds (Since now t)"
  then have "Since now t \<le> R * Second" by (simp add: exact_seconds_le_iff not_less)
  with Since_range [of now t] have "Seconds (Since now t) \<le> float64 (of_int R)"
    by (intro Seconds_le) simp_all
  with assms show False by simp
qed

lemma whole_second_passes_float_check:
  assumes "of_int (R + 1) \<le> exact_seconds (Since now t)" and "0 \<le> R"
  shows "float64 (of_int R) < Seconds (Since now t)"
proof -
  from assms(1) have "\<not> exact_seconds (Since now t) \<le> of_int R"
    by (simp add: not_le) 
  have "(of_int ((R + 1) * 1000000000) :: rat) \<le> of_int (Since now t)"
    using assms(1) by (simp add: exact_seconds_def pos_le_divide_eq)
  then have "(R + 1) * 1000000000 \<le> Since now t" by (simp only: of_int_le_iff)
  with Since_range [of now t] assms(2) show ?thesis
    by (intro Seconds_gt) (simp_all add: Second_def)
qed

text \<open>
  Rounding can hide a nanosecond: an idle time one nanosecond over \<open>16777216\<close> seconds is
  not greater than \<open>16777216\<close> in \<open>float64\<close>.
\<close>

lemma rounding_hides_a_nanosecond:
  "\<not> Seconds 16777216000000001 > float64 (of_int 16777216) \<and>
   exact_seconds 16777216000000001 > of_int 16777216"
  by code_simp

section \<open>The fetch\<close>

lemma fetch_ok_iff: "fetch_ok r \<longleftrightarrow> (\<exists>buf. r = Response 200 (ReadAll buf))"
  by (cases r rule: fetch_ok.cases) auto

lemma Get_keeps_client: "client (fst (Get net now proxy url)) = client proxy"
  by (simp add: Get_def Let_def split: option.split response.split body_read.split)

lemma Get_bound_client_returns:
  "client proxy = Some c \<Longrightarrow> fst (snd (Get net now proxy url)) \<noteq> NilDereference"
  by (simp add: Get_def Let_def split: response.split body_read.split)

lemma Get_at_most_one_request: "length (requests (snd (snd (Get net now proxy url)))) \<le> 1"
  by (simp add: Get_def Let_def split: option.split response.split body_read.split)

text \<open>
  Claim C1. A proxy that was admitted has a bound client. After \<open>Get\<close> on such a proxy,
  \<open>Alive\<close> is true exactly when the client gave back a response with status 200 and a
  body that was read, which is exactly when \<open>Get\<close> returns the body; after an error of
  the client, a body that cannot be read or another status, \<open>Alive\<close> is false and
  \<open>Get\<close> returns an error.
\<close>

theorem Get_Alive_iff_status_ok:
  assumes "client proxy = Some c"
  shows "(Alive (fst (Get net now proxy url)) \<longleftrightarrow>
            (\<exists>buf. client_Get net c url now = Response 200 (ReadAll buf))) \<and>
         (Alive (fst (Get net now proxy url)) \<longleftrightarrow>
            (\<exists>buf. fst (snd (Get net now proxy url)) = Body buf)) \<and>
         (\<not> Alive (fst (Get net now proxy url)) \<longleftrightarrow>
            (\<exists>err. fst (snd (Get net now proxy url)) = Failed err))"
  using assms
  by (cases "client_Get net c url now" rule: fetch_ok.cases) (simp_all add: Get_def StatusOK_def Let_def)

theorem Get_Alive_iff_status_ok_witness:
  "client created_proxy = Some (bound_client ''socks5://10.0.0.1:1080'') \<and>
   Alive (fst (Get (only_through ''socks5://10.0.0.1:1080'') 7 created_proxy
                 ''http://example.com'')) \<and>
   fst (snd (Get (only_through ''socks5://10.0.0.1:1080'') 7 created_proxy
                 ''http://example.com'')) = Body ''ok''"
proof -
  have h: "client created_proxy = Some (bound_client ''socks5://10.0.0.1:1080'')"
    by (simp add: created_proxy_def)
  have r: "client_Get (only_through ''socks5://10.0.0.1:1080'')
             (bound_client ''socks5://10.0.0.1:1080'') ''http://example.com'' 7
           = Response 200 (ReadAll ''ok'')"
    by (simp add: client_Get_def only_through_def parses_def answer_through_def)
  have b: "fst (snd (Get (only_through ''socks5://10.0.0.1:1080'') 7 created_proxy
                 ''http://example.com'')) = Body ''ok''"
    using h r by (simp add: Get_def Let_def StatusOK_def)
  from Get_Alive_iff_status_ok [OF h, of "only_through ''socks5://10.0.0.1:1080''" 7
         "''http://example.com''"] h r b
  show ?thesis by simp
qed

text \<open>
  Claim C2. Every call of \<open>Get\<close> leaves \<open>lastRequest\<close> at the time of the attempt,
  whatever the outcome, and the write of \<open>lastRequest\<close> is the first effect of the call:
  the request, if one is issued, comes after it.
\<close>

theorem Get_stamps_before_request:
  "lastRequest (fst (Get net now proxy url)) = now \<and>
   (\<exists>rest. snd (snd (Get net now proxy url)) = WriteLastRequest now # rest)"
  by (simp add: Get_def Let_def split: option.split response.split body_read.split)

theorem Get_stamps_before_request_witness:
  "lastRequest (fst (Get (only_through ''socks4://10.0.0.1:1080'') 7 created_proxy
                       ''http://example.com'')) = 7 \<and>
   snd (snd (Get (only_through ''socks4://10.0.0.1:1080'') 7 created_proxy
                       ''http://example.com''))
     = [WriteLastRequest 7,
        HttpGet (bound_client ''socks5://10.0.0.1:1080'') ''http://example.com'',
        WriteAlive False, Println ''connection refused'']"
proof -
  have "snd (snd (Get (only_through ''socks4://10.0.0.1:1080'') 7 created_proxy
                       ''http://example.com''))
     = [WriteLastRequest 7,
        HttpGet (bound_client ''socks5://10.0.0.1:1080'') ''http://example.com'',
        WriteAlive False, Println ''connection refused'']"
    by (simp add: Get_def Let_def created_proxy_def client_Get_def only_through_def parses_def
          answer_through_def bound_client_def)
  with Get_stamps_before_request [of "only_through ''socks4://10.0.0.1:1080''" 7 created_proxy
         "''http://example.com''"]
  show ?thesis by simp
qed

section \<open>Negotiation\<close>

lemma Create_Alive:
  "Alive (fst (Create net clk proxy testURL)) = negotiation_ok net clk proxy testURL"
  by (cases "client_Get net (bound_client (socks_url 5 proxy)) testURL (clk 0)" rule: fetch_ok.cases;
      cases "client_Get net (bound_client (socks_url 4 proxy)) testURL (clk 1)" rule: fetch_ok.cases)
     (simp_all add: Create_def socksVersions_def Get_def Let_def StatusOK_def
        bound_client_def socks_url_def negotiation_ok_def)

lemma Create_keeps_identity:
  "ip (fst (Create net clk proxy testURL)) = ip proxy \<and>
   port (fst (Create net clk proxy testURL)) = port proxy \<and>
   protocol (fst (Create net clk proxy testURL)) = protocol proxy"
  by (cases "client_Get net (bound_client (socks_url 5 proxy)) testURL (clk 0)" rule: fetch_ok.cases;
      cases "client_Get net (bound_client (socks_url 4 proxy)) testURL (clk 1)" rule: fetch_ok.cases)
     (simp_all add: Create_def socksVersions_def Get_def Let_def StatusOK_def
        bound_client_def socks_url_def)

text \<open>
  Claim C9. \<open>Create\<close> issues its first test fetch through the SOCKS5 client. If that
  fetch succeeds it is the only request, and the proxy keeps the SOCKS5 connection URL, dial
  function and client. If it fails, exactly one more request follows, through the SOCKS4
  client, and the proxy keeps the SOCKS4 connection URL, dial function and client. The proxy
  is alive afterwards exactly when one of the attempts made succeeded.
\<close>

theorem Create_tries_socks5_then_socks4:
  "requests (snd (Create net clk proxy testURL)) =
     (if fetch_ok (client_Get net (bound_client (socks_url 5 proxy)) testURL (clk 0))
      then [(bound_client (socks_url 5 proxy), testURL)]
      else [(bound_client (socks_url 5 proxy), testURL),
            (bound_client (socks_url 4 proxy), testURL)]) \<and>
   URL (fst (Create net clk proxy testURL)) =
     (if fetch_ok (client_Get net (bound_client (socks_url 5 proxy)) testURL (clk 0))
      then socks_url 5 proxy else socks_url 4 proxy) \<and>
   client (fst (Create net clk proxy testURL)) =
     Some (bound_client (URL (fst (Create net clk proxy testURL)))) \<and>
   dial (fst (Create net clk proxy testURL)) =
     Some (URL (fst (Create net clk proxy testURL)) @ ''?timeout=20s'') \<and>
   Alive (fst (Create net clk proxy testURL)) =
     (fetch_ok (client_Get net (bound_client (socks_url 5 proxy)) testURL (clk 0)) \<or>
      fetch_ok (client_Get net (bound_client (socks_url 4 proxy)) testURL (clk 1)))"
  by (cases "client_Get net (bound_client (socks_url 5 proxy)) testURL (clk 0)" rule: fetch_ok.cases;
      cases "client_Get net (bound_client (socks_url 4 proxy)) testURL (clk 1)" rule: fetch_ok.cases)
     (simp_all add: Create_def socksVersions_def Get_def Let_def StatusOK_def
        bound_client_def socks_url_def)

theorem Create_tries_socks5_then_socks4_witness:
  "requests (snd (Create (only_through ''socks4://10.0.0.2:1080'') (steady 0)
                    (new_Proxy ''10.0.0.2'' 1080) ''http://example.com''))
     = [(bound_client ''socks5://10.0.0.2:1080'', ''http://example.com''),
        (bound_client ''socks4://10.0.0.2:1080'', ''http://example.com'')] \<and>
   URL (fst (Create (only_through ''socks4://10.0.0.2:1080'') (steady 0)
                    (new_Proxy ''10.0.0.2'' 1080) ''http://example.com''))
     = ''socks4://10.0.0.2:1080'' \<and>
   Alive (fst (Create (only_through ''socks4://10.0.0.2:1080'') (steady 0)
                    (new_Proxy ''10.0.0.2'' 1080) ''http://example.com''))"
proof -
  have u5: "socks_url 5 (new_Proxy ''10.0.0.2'' 1080) = ''socks5://10.0.0.2:1080''"
    by code_simp
  have u4: "socks_url 4 (new_Proxy ''10.0.0.2'' 1080) = ''socks4://10.0.0.2:1080''"
    by code_simp
  have f5: "\<not> fetch_ok (client_Get (only_through ''socks4://10.0.0.2:1080'')
              (bound_client ''socks5://10.0.0.2:1080'') ''http://example.com'' (steady 0 0))"
    by (simp add: client_Get_def only_through_def parses_def answer_through_def bound_client_def)
  have f4: "fetch_ok (client_Get (only_through ''socks4://10.0.0.2:1080'')
              (bound_client ''socks4://10.0.0.2:1080'') ''http://example.com'' (steady 0 1))"
    by (simp add: client_Get_def only_through_def parses_def answer_through_def)
  from Create_tries_socks5_then_socks4 [of "only_through ''socks4://10.0.0.2:1080''" "steady 0"
         "new_Proxy ''10.0.0.2'' 1080" "''http://example.com''"] f5 f4
  show ?thesis by (simp add: u5 u4)
qed


section \<open>The selector\<close>

lemma loop_unfold:
  "GetAvailableProxy_loop clk pool i gos =
     (if i < length (proxies pool) then
        (if selectable clk pool i
         then (pool, (if retest_due clk pool i then gos @ [GoGet i (TestURL pool)] else gos), Inr i)
         else GetAvailableProxy_loop clk pool (Suc i)
                (if retest_due clk pool i then gos @ [GoGet i (TestURL pool)] else gos))
      else (pool, gos, Inl ''no proxies available''))"
  by (subst GetAvailableProxy_loop.simps) (simp add: retest_due_def selectable_def Let_def)


lemma loop_Inr:
  "snd (snd (GetAvailableProxy_loop clk pool i gos)) = Inr k \<longleftrightarrow>
     i \<le> k \<and> k < length (proxies pool) \<and> selectable clk pool k \<and>
     (\<forall>j. i \<le> j \<and> j < k \<longrightarrow> \<not> selectable clk pool j)"
proof (induction clk pool i gos rule: GetAvailableProxy_loop.induct)
  case (1 clk pool i gos)
  show ?case
  proof (cases "i < length (proxies pool)")
    case False
    then show ?thesis by (subst loop_unfold) auto
  next
    case inb: True
    show ?thesis
    proof (cases "selectable clk pool i")
      case True
      have "i = k" if "i \<le> k" "\<forall>j. i \<le> j \<and> j < k \<longrightarrow> \<not> selectable clk pool j"
        using that True by (cases "i = k") auto
      with True inb show ?thesis by (subst loop_unfold) auto
    next
      case False
      have ih: "snd (snd (GetAvailableProxy_loop clk pool (Suc i)
                 (if retest_due clk pool i then gos @ [GoGet i (TestURL pool)] else gos))) = Inr k \<longleftrightarrow>
             Suc i \<le> k \<and> k < length (proxies pool) \<and> selectable clk pool k \<and>
             (\<forall>j. Suc i \<le> j \<and> j < k \<longrightarrow> \<not> selectable clk pool j)"
        using "1.IH" [OF inb refl] False by (simp add: selectable_def retest_due_def)
      have a: "(Suc i \<le> k \<and> selectable clk pool k) = (i \<le> k \<and> selectable clk pool k)"
        using False by (cases "i = k") auto
      have b: "(\<forall>j. Suc i \<le> j \<and> j < k \<longrightarrow> \<not> selectable clk pool j) =
               (\<forall>j. i \<le> j \<and> j < k \<longrightarrow> \<not> selectable clk pool j)"
        using False by (metis Suc_leI le_neq_implies_less Suc_leD)
      have "snd (snd (GetAvailableProxy_loop clk pool i gos)) =
            snd (snd (GetAvailableProxy_loop clk pool (Suc i)
                 (if retest_due clk pool i then gos @ [GoGet i (TestURL pool)] else gos)))"
        using inb False by (subst loop_unfold) simp
      then show ?thesis using ih a b by auto
    qed
  qed
qed


lemma scan_end_le:
  "scan_end pool (snd (snd (GetAvailableProxy_loop clk pool i gos))) \<le> length (proxies pool)"
proof (cases "snd (snd (GetAvailableProxy_loop clk pool i gos))")
  case (Inl msg)
  then show ?thesis by (simp add: scan_end_def)
next
  case (Inr k)
  then have "k < length (proxies pool)" using loop_Inr [of clk pool i gos k] by simp
  then show ?thesis using Inr by (simp add: scan_end_def)
qed

lemma loop_gos:
  "fst (snd (GetAvailableProxy_loop clk pool i gos)) =
     gos @ map (\<lambda>j. GoGet j (TestURL pool))
             (filter (retest_due clk pool)
                [i ..< scan_end pool (snd (snd (GetAvailableProxy_loop clk pool i gos)))])"
proof (induction clk pool i gos rule: GetAvailableProxy_loop.induct)
  case (1 clk pool i gos)
  show ?case
  proof (cases "i < length (proxies pool)")
    case False
    then show ?thesis by (subst (1 2) loop_unfold) (simp add: scan_end_def)
  next
    case inb: True
    show ?thesis
    proof (cases "selectable clk pool i")
      case True
      with inb show ?thesis by (subst (1 2) loop_unfold) (simp add: scan_end_def)
    next
      case False
      let ?raw = "(if Seconds (Since (clk (2 * i)) (lastRequest (proxies pool ! i)))
                         > float64 (of_int (RetestDelay pool)) \<and> \<not> Alive (proxies pool ! i)
                   then gos @ [GoGet i (TestURL pool)] else gos)"
      let ?gos1 = "(if retest_due clk pool i then gos @ [GoGet i (TestURL pool)] else gos)"
      let ?r = "snd (snd (GetAvailableProxy_loop clk pool (Suc i) ?gos1))"
      have nsel: "\<not> (Seconds (Since (clk (2 * i + 1)) (lastRequest (proxies pool ! i)))
                         > float64 (of_int (RateLimit pool)) \<and> Alive (proxies pool ! i))"
        using False by (simp add: selectable_def)
      have raw: "?raw = ?gos1" by (simp add: retest_due_def)
      have "fst (snd (GetAvailableProxy_loop clk pool (Suc i) ?raw)) =
                ?raw @ map (\<lambda>j. GoGet j (TestURL pool))
                  (filter (retest_due clk pool)
                     [Suc i ..< scan_end pool (snd (snd (GetAvailableProxy_loop clk pool (Suc i) ?raw)))])"
        by (rule "1.IH" [OF inb refl nsel])
      then have ih: "fst (snd (GetAvailableProxy_loop clk pool (Suc i) ?gos1)) =
                ?gos1 @ map (\<lambda>j. GoGet j (TestURL pool))
                  (filter (retest_due clk pool) [Suc i ..< scan_end pool ?r])"
        unfolding raw .
      have step: "GetAvailableProxy_loop clk pool i gos = GetAvailableProxy_loop clk pool (Suc i) ?gos1"
        using inb False by (subst loop_unfold) simp
      have "i < scan_end pool ?r"
      proof (cases ?r)
        case (Inl msg)
        then show ?thesis using inb by (simp add: scan_end_def)
      next
        case (Inr k)
        then have "Suc i \<le> k" using loop_Inr [of clk pool "Suc i" ?gos1 k] by simp
        then show ?thesis using Inr by (simp add: scan_end_def)
      qed
      then have "[i ..< scan_end pool ?r] = i # [Suc i ..< scan_end pool ?r]"
        by (simp add: upt_conv_Cons)
      then show ?thesis using ih step by simp
    qed
  qed
qed

text \<open>
  Claim C3, as amended. The proxy the selector returns is alive and, at the clock reading of
  its check, has been idle for more than \<open>RateLimit\<close> seconds: never for \<open>RateLimit\<close>
  seconds or less. A proxy qualifies when it is alive and its idle time in seconds, computed
  in \<open>float64\<close> as \<open>Duration.Seconds\<close> computes it, is greater than
  \<open>float64(RateLimit)\<close>: it is then returned when the scan reaches it, that is when no
  proxy before it qualifies. For a rate limit that is not negative, an alive proxy that has
  been idle for \<open>RateLimit + 1\<close> seconds or more always qualifies.
\<close>

theorem selected_proxy_is_past_rate_limit:
  "(snd (snd (GetAvailableProxy clk pool)) = Inr i \<longrightarrow>
      Alive (proxies pool ! i) \<and>
      \<not> exact_seconds (Since (clk (2 * i + 1)) (lastRequest (proxies pool ! i)))
            \<le> of_int (RateLimit pool)) \<and>
   (i < length (proxies pool) \<and> Alive (proxies pool ! i) \<and>
    Seconds (Since (clk (2 * i + 1)) (lastRequest (proxies pool ! i)))
      > float64 (of_int (RateLimit pool)) \<and>
    (\<forall>j<i. \<not> selectable clk pool j)
      \<longrightarrow> snd (snd (GetAvailableProxy clk pool)) = Inr i) \<and>
   (i < length (proxies pool) \<and> Alive (proxies pool ! i) \<and> 0 \<le> RateLimit pool \<and>
    exact_seconds (Since (clk (2 * i + 1)) (lastRequest (proxies pool ! i)))
      \<ge> of_int (RateLimit pool + 1) \<and>
    (\<forall>j<i. \<not> selectable clk pool j)
      \<longrightarrow> snd (snd (GetAvailableProxy clk pool)) = Inr i)"
proof -
  have c1: "Alive (proxies pool ! i) \<and>
      \<not> exact_seconds (Since (clk (2 * i + 1)) (lastRequest (proxies pool ! i)))
            \<le> of_int (RateLimit pool)"
    if "snd (snd (GetAvailableProxy clk pool)) = Inr i"
  proof -
    from that have s: "selectable clk pool i"
      unfolding GetAvailableProxy_def loop_Inr by simp
    then have "of_int (RateLimit pool)
                 < exact_seconds (Since (clk (2 * i + 1)) (lastRequest (proxies pool ! i)))"
      unfolding selectable_def by (intro float_check_implies_exact) simp
    with s show ?thesis by (simp add: selectable_def not_le)
  qed
  have c2: "snd (snd (GetAvailableProxy clk pool)) = Inr i"
    if "i < length (proxies pool) \<and> Alive (proxies pool ! i) \<and>
        Seconds (Since (clk (2 * i + 1)) (lastRequest (proxies pool ! i)))
          > float64 (of_int (RateLimit pool)) \<and>
        (\<forall>j<i. \<not> selectable clk pool j)"
    using that unfolding GetAvailableProxy_def loop_Inr by (simp add: selectable_def)
  have c3: "snd (snd (GetAvailableProxy clk pool)) = Inr i"
    if a: "i < length (proxies pool) \<and> Alive (proxies pool ! i) \<and> 0 \<le> RateLimit pool \<and>
        exact_seconds (Since (clk (2 * i + 1)) (lastRequest (proxies pool ! i)))
          \<ge> of_int (RateLimit pool + 1) \<and>
        (\<forall>j<i. \<not> selectable clk pool j)"
  proof -
    from a have "float64 (of_int (RateLimit pool))
                 < Seconds (Since (clk (2 * i + 1)) (lastRequest (proxies pool ! i)))"
      by (intro whole_second_passes_float_check) simp_all
    with a show ?thesis by (intro c2) simp
  qed
  from c1 c2 c3 show ?thesis by blast
qed

theorem selected_proxy_is_past_rate_limit_witness:
  "snd (snd (GetAvailableProxy (steady 11000000000) (one_proxy_pool True))) = Inr 0 \<and>
   Alive (proxies (one_proxy_pool True) ! 0) \<and>
   \<not> exact_seconds (Since (steady 11000000000 1) (lastRequest (proxies (one_proxy_pool True) ! 0)))
         \<le> of_int (RateLimit (one_proxy_pool True)) \<and>
   Seconds (Since (steady 11000000000 1) (lastRequest (proxies (one_proxy_pool True) ! 0)))
      > float64 (of_int (RateLimit (one_proxy_pool True)))"
proof -
  have f: "Seconds (Since (steady 11000000000 (2 * 0 + 1))
                      (lastRequest (proxies (one_proxy_pool True) ! 0)))
             > float64 (of_int (RateLimit (one_proxy_pool True)))"
    by code_simp
  have e: "exact_seconds (Since (steady 11000000000 (2 * 0 + 1))
                      (lastRequest (proxies (one_proxy_pool True) ! 0)))
             \<ge> of_int (RateLimit (one_proxy_pool True) + 1)"
    by code_simp
  have h: "0 < length (proxies (one_proxy_pool True)) \<and> Alive (proxies (one_proxy_pool True) ! 0) \<and>
           0 \<le> RateLimit (one_proxy_pool True) \<and>
           (\<forall>j<0. \<not> selectable (steady 11000000000) (one_proxy_pool True) j)"
    by (simp add: one_proxy_pool_def new_Proxy_def)
  have r2: "snd (snd (GetAvailableProxy (steady 11000000000) (one_proxy_pool True))) = Inr 0"
    using selected_proxy_is_past_rate_limit
            [of "steady 11000000000" "one_proxy_pool True" 0, THEN conjunct2, THEN conjunct1]
          h f by blast
  have r3: "snd (snd (GetAvailableProxy (steady 11000000000) (one_proxy_pool True))) = Inr 0"
    using selected_proxy_is_past_rate_limit
            [of "steady 11000000000" "one_proxy_pool True" 0, THEN conjunct2, THEN conjunct2]
          h e by blast
  from selected_proxy_is_past_rate_limit
         [of "steady 11000000000" "one_proxy_pool True" 0, THEN conjunct1] r2 f
  show ?thesis by simp
qed

text \<open>
  The claim as it was stated fails where the idle time equals the rate limit: an alive proxy
  that has been idle for exactly \<open>RateLimit\<close> seconds, the only one of its pool, is not
  returned.
\<close>

theorem selector_rate_limit_boundary:
  "Alive (proxies (one_proxy_pool True) ! 0) \<and>
   exact_seconds (Since (steady 10000000000 1) (lastRequest (proxies (one_proxy_pool True) ! 0)))
     \<ge> of_int (RateLimit (one_proxy_pool True)) \<and>
   snd (snd (GetAvailableProxy (steady 10000000000) (one_proxy_pool True)))
     = Inl ''no proxies available''"
  by code_simp

text \<open>
  Claim C4. Every goroutine the selector launches is a \<open>Get\<close> of the test URL through a
  proxy of the pool that is dead and, at the clock reading of its check, has been idle for
  more than \<open>RetestDelay\<close> seconds; the idle time in seconds that the code computed in
  \<open>float64\<close> was greater than \<open>float64(RetestDelay)\<close>.
\<close>

theorem retest_only_dead_and_past_retest_delay:
  assumes "GoGet j url \<in> set (fst (snd (GetAvailableProxy clk pool)))"
  shows "j < length (proxies pool) \<and> \<not> Alive (proxies pool ! j) \<and>
         exact_seconds (Since (clk (2 * j)) (lastRequest (proxies pool ! j)))
           > of_int (RetestDelay pool) \<and>
         Seconds (Since (clk (2 * j)) (lastRequest (proxies pool ! j)))
           > float64 (of_int (RetestDelay pool)) \<and>
         url = TestURL pool"
proof -
  let ?n = "scan_end pool (snd (snd (GetAvailableProxy_loop clk pool 0 [])))"
  from assms have "GoGet j url \<in> set (map (\<lambda>j. GoGet j (TestURL pool))
                      (filter (retest_due clk pool) [0 ..< ?n]))"
    unfolding GetAvailableProxy_def by (subst (asm) loop_gos) simp
  then have j: "j < ?n" and r: "retest_due clk pool j" and u: "url = TestURL pool" by auto
  have n: "?n \<le> length (proxies pool)" by (rule scan_end_le)
  from r have "of_int (RetestDelay pool)
                 < exact_seconds (Since (clk (2 * j)) (lastRequest (proxies pool ! j)))"
    unfolding retest_due_def by (intro float_check_implies_exact) simp
  with j r u n show ?thesis by (simp add: retest_due_def)
qed

theorem retest_only_dead_and_past_retest_delay_witness:
  "GoGet 0 ''http://example.com''
     \<in> set (fst (snd (GetAvailableProxy (steady 301000000000) (one_proxy_pool False)))) \<and>
   \<not> Alive (proxies (one_proxy_pool False) ! 0) \<and>
   exact_seconds (Since (steady 301000000000 (2 * 0)) (lastRequest (proxies (one_proxy_pool False) ! 0)))
      > of_int (RetestDelay (one_proxy_pool False))"
proof -
  have h: "GoGet 0 ''http://example.com''
             \<in> set (fst (snd (GetAvailableProxy (steady 301000000000) (one_proxy_pool False))))"
    by code_simp
  from retest_only_dead_and_past_retest_delay [OF h] h show ?thesis by simp
qed




section \<open>Loading\<close>

lemma admit_filter: "admit ps acc = acc @ filter Alive ps"
  by (induction ps arbitrary: acc) auto

lemma Split_length: "length (Split s sep) = Suc (length (filter (\<lambda>x. x = sep) s))"
  by (induction s) (auto split: list.splits)

lemma Split_no_sep: "sep \<notin> set s \<Longrightarrow> Split s sep = [s]"
  by (induction s) auto

lemma Split_two:
  assumes "sep \<in> set s"
  shows "\<exists>a b others. Split s sep = a # b # others"
proof -
  from assms have "filter (\<lambda>x. x = sep) s \<noteq> []" by (auto simp: filter_empty_conv)
  then have "2 \<le> length (Split s sep)"
    by (cases "filter (\<lambda>x. x = sep) s") (auto simp: Split_length)
  then show ?thesis by (cases "Split s sep" rule: remdups_adj.cases) auto
qed

lemma scan_lines_Inr:
  "scan_lines lines acc = Inr cands \<longleftrightarrow>
     (\<forall>l\<in>set lines. CHR '':'' \<in> set l) \<and> cands = acc @ map candidate lines"
proof (induction lines arbitrary: acc)
  case Nil
  then show ?case by auto
next
  case (Cons l lines)
  show ?case
  proof (cases "CHR '':'' \<in> set l")
    case False
    then show ?thesis by (simp add: Split_no_sep)
  next
    case True
    then obtain a b others where s: "Split l CHR '':'' = a # b # others"
      using Split_two by blast
    then have "candidate l = new_Proxy a (fst (Atoi b))" by (simp add: candidate_def)
    with s True Cons.IH [of "acc @ [new_Proxy a (fst (Atoi b))]"] show ?thesis by auto
  qed
qed

lemma proxies_UpdateCounts: "proxies (UpdateCounts clk pool) = proxies pool"
  by (simp add: UpdateCounts_def split: prod.split)

lemma negotiate_nth:
  "k < length cands \<Longrightarrow>
   negotiate net gclk testURL cands ! k = fst (Create net (gclk k) (cands ! k) testURL)"
  by (simp add: negotiate_def nth_enumerate_eq)

text \<open>
  Claim C6. The code does not handle a record without a colon: on the file with the two
  lines \<open>10.0.0.1:1080\<close> and \<open>localhost\<close> the call ends in the panic of the index
  expression \<open>line[1]\<close>, whatever the network, the clocks and the pool are. A record whose
  port is not a number is neither reported nor skipped: it becomes a candidate with port 0.
\<close>

theorem LoadProxies_malformed_records:
  "LoadProxies (a_file [''10.0.0.1:1080'', ''localhost''] None) net gclk clk pool path
     = Panicked ''index out of range [1] with length 1'' \<and>
   scan_lines [''10.0.0.2:http''] [] = Inr [new_Proxy ''10.0.0.2'' 0]"
  by (simp add: LoadProxies_def a_file_def Atoi_def is_digit_def)

text \<open>
  Claim C7, as amended. When the source cannot be opened, \<open>LoadProxies\<close> does not return:
  \<open>log.Fatal\<close> ends the process with the error of \<open>os.Open\<close>. When the source was
  opened, every record has a colon and reading fails, \<open>LoadProxies\<close> returns the read
  error to its caller. An error that \<open>LoadProxies\<close> returns is always the read error of a
  source that was opened.
\<close>

theorem LoadProxies_source_failures:
  "(fs path = OpenError e \<longrightarrow> LoadProxies fs net gclk clk pool path = Exited e) \<and>
   (fs path = Opened lines (Some e) \<and> (\<forall>l\<in>set lines. CHR '':'' \<in> set l)
      \<longrightarrow> (\<exists>pool'. LoadProxies fs net gclk clk pool path = Returned pool' (Some e))) \<and>
   (LoadProxies fs net gclk clk pool path = Returned pool' (Some e)
      \<longrightarrow> (\<exists>read. fs path = Opened read (Some e)))"
proof (intro conjI impI)
  assume "fs path = OpenError e"
  then show "LoadProxies fs net gclk clk pool path = Exited e" by (simp add: LoadProxies_def)
next
  assume a: "fs path = Opened lines (Some e) \<and> (\<forall>l\<in>set lines. CHR '':'' \<in> set l)"
  then have "scan_lines lines [] = Inr ([] @ map candidate lines)"
    unfolding scan_lines_Inr by simp
  with a show "\<exists>pool'. LoadProxies fs net gclk clk pool path = Returned pool' (Some e)"
    by (simp add: LoadProxies_def Let_def)
next
  assume "LoadProxies fs net gclk clk pool path = Returned pool' (Some e)"
  then show "\<exists>read. fs path = Opened read (Some e)"
    by (auto simp: LoadProxies_def Let_def split: source.splits sum.splits option.splits)
qed

theorem LoadProxies_source_failures_witness:
  "LoadProxies (no_file ''no such file or directory'')
      (only_through ''socks5://10.0.0.1:1080'') (all_steady 0) (steady 0)
      (NewProxyPool ''http://example.com'' 10 300) ''proxies.txt''
     = Exited ''no such file or directory'' \<and>
   returns_error
     (LoadProxies (a_file [''10.0.0.1:1080''] (Some ''unexpected EOF''))
        (only_through ''socks5://10.0.0.1:1080'') (all_steady 0) (steady 0)
        (NewProxyPool ''http://example.com'' 10 300) ''proxies.txt'') \<and>
   a_file [''10.0.0.1:1080''] (Some ''unexpected EOF'') ''proxies.txt''
     = Opened [''10.0.0.1:1080''] (Some ''unexpected EOF'')"
proof -
  let ?net = "only_through ''socks5://10.0.0.1:1080''"
  let ?pool = "NewProxyPool ''http://example.com'' 10 300"
  let ?fs = "a_file [''10.0.0.1:1080''] (Some ''unexpected EOF'')"
  have o: "no_file ''no such file or directory'' ''proxies.txt''
             = OpenError ''no such file or directory''"
    by (simp add: no_file_def)
  have x: "LoadProxies (no_file ''no such file or directory'') ?net (all_steady 0) (steady 0)
             ?pool ''proxies.txt'' = Exited ''no such file or directory''"
    using LoadProxies_source_failures
            [of "no_file ''no such file or directory''" "''proxies.txt''"
                "''no such file or directory''" ?net "all_steady 0" "steady 0" ?pool] o
    by blast
  have f: "?fs ''proxies.txt'' = Opened [''10.0.0.1:1080''] (Some ''unexpected EOF'') \<and>
           (\<forall>l\<in>set [''10.0.0.1:1080'']. CHR '':'' \<in> set l)"
    by (simp add: a_file_def)
  then obtain pool' where
    r: "LoadProxies ?fs ?net (all_steady 0) (steady 0) ?pool ''proxies.txt''
          = Returned pool' (Some ''unexpected EOF'')"
    using LoadProxies_source_failures
            [of ?fs "''proxies.txt''" "''unexpected EOF''" ?net "all_steady 0" "steady 0" ?pool
                "[''10.0.0.1:1080'']"]
    by blast
  then have "returns_error (LoadProxies ?fs ?net (all_steady 0) (steady 0) ?pool ''proxies.txt'')"
    by (simp add: returns_error_def)
  with x f show ?thesis by simp
qed

text \<open>
  The claim as it was stated fails where the source cannot be opened: the call does not
  return an error, it ends the process.
\<close>

theorem LoadProxies_open_failure_exits:
  "no_file ''no such file or directory'' ''proxies.txt''
     = OpenError ''no such file or directory'' \<and>
   \<not> returns_error
       (LoadProxies (no_file ''no such file or directory'')
          (only_through ''socks5://10.0.0.1:1080'') (all_steady 0) (steady 0)
          (NewProxyPool ''http://example.com'' 10 300) ''proxies.txt'') \<and>
   LoadProxies (no_file ''no such file or directory'')
      (only_through ''socks5://10.0.0.1:1080'') (all_steady 0) (steady 0)
      (NewProxyPool ''http://example.com'' 10 300) ''proxies.txt''
     = Exited ''no such file or directory''"
  by (simp add: LoadProxies_def no_file_def returns_error_def)

text \<open>
  Claim C8. When \<open>LoadProxies\<close> returns, the source was opened and the proxies of the
  pool are those it held before followed by the negotiated candidates that are alive, in the
  order of their records. The candidate of record \<open>k\<close> is alive after negotiation exactly
  when its SOCKS5 or its SOCKS4 test fetch succeeded. A pool that held no proxy before, as
  \<open>NewProxyPool\<close> builds it, holds alive proxies only.
\<close>

theorem LoadProxies_admits_alive_in_order:
  assumes "LoadProxies fs net gclk clk pool path = Returned pool' err"
  shows "\<exists>lines. fs path = Opened lines err \<and>
           proxies pool' =
             proxies pool @ filter Alive (negotiate net gclk (TestURL pool) (map candidate lines)) \<and>
           (\<forall>k<length lines.
              Alive (negotiate net gclk (TestURL pool) (map candidate lines) ! k) =
              negotiation_ok net (gclk k) (candidate (lines ! k)) (TestURL pool)) \<and>
           (proxies pool = [] \<longrightarrow> (\<forall>p\<in>set (proxies pool'). Alive p))"
proof -
  from assms obtain lines serr cands where
    src: "fs path = Opened lines serr" and sc: "scan_lines lines [] = Inr cands"
    by (auto simp: LoadProxies_def split: source.splits sum.splits)
  from sc have cands: "cands = map candidate lines"
    using scan_lines_Inr [of lines "[]" cands] by simp
  from assms src sc have err: "serr = err"
    by (auto simp: LoadProxies_def Let_def split: option.splits)
  from assms src sc have px: "proxies pool' =
      proxies pool @ filter Alive (negotiate net gclk (TestURL pool) (map candidate lines))"
    by (auto simp: LoadProxies_def Let_def admit_filter cands proxies_UpdateCounts
             split: option.splits)
  have "\<forall>k<length lines.
              Alive (negotiate net gclk (TestURL pool) (map candidate lines) ! k) =
              negotiation_ok net (gclk k) (candidate (lines ! k)) (TestURL pool)"
    by (simp add: negotiate_nth Create_Alive)
  with src err px show ?thesis by auto
qed

theorem LoadProxies_admits_alive_in_order_witness:
  "LoadProxies (a_file [''10.0.0.1:1080'', ''10.0.0.2:1080''] None)
      (only_through ''socks4://10.0.0.2:1080'') (all_steady 0) (steady 100000000000)
      (NewProxyPool ''http://example.com'' 10 300) ''proxies.txt''
     = Returned
         (pool_left
            (LoadProxies (a_file [''10.0.0.1:1080'', ''10.0.0.2:1080''] None)
               (only_through ''socks4://10.0.0.2:1080'') (all_steady 0) (steady 100000000000)
               (NewProxyPool ''http://example.com'' 10 300) ''proxies.txt''))
         None \<and>
   map URL
     (proxies
        (pool_left
           (LoadProxies (a_file [''10.0.0.1:1080'', ''10.0.0.2:1080''] None)
              (only_through ''socks4://10.0.0.2:1080'') (all_steady 0) (steady 100000000000)
              (NewProxyPool ''http://example.com'' 10 300) ''proxies.txt'')))
     = [''socks4://10.0.0.2:1080'']"
proof -
  let ?fs = "a_file [''10.0.0.1:1080'', ''10.0.0.2:1080''] None"
  let ?net = "only_through ''socks4://10.0.0.2:1080''"
  let ?pool = "NewProxyPool ''http://example.com'' 10 300"
  let ?r = "LoadProxies ?fs ?net (all_steady 0) (steady 100000000000) ?pool ''proxies.txt''"
  have "scan_lines [''10.0.0.1:1080'', ''10.0.0.2:1080''] []
          = Inr ([] @ map candidate [''10.0.0.1:1080'', ''10.0.0.2:1080''])"
    unfolding scan_lines_Inr by simp
  then have h: "?r = Returned (pool_left ?r) None"
    by (simp add: LoadProxies_def a_file_def Let_def)
  from LoadProxies_admits_alive_in_order [OF h] obtain lines where
    l: "?fs ''proxies.txt'' = Opened lines None" and
    p: "proxies (pool_left ?r) =
          proxies ?pool @ filter Alive (negotiate ?net (all_steady 0) (TestURL ?pool)
                                          (map candidate lines))"
    by blast
  from l have lines: "lines = [''10.0.0.1:1080'', ''10.0.0.2:1080'']" by (simp add: a_file_def)
  have "map URL (proxies ?pool @ filter Alive (negotiate ?net (all_steady 0) (TestURL ?pool)
                   (map candidate [''10.0.0.1:1080'', ''10.0.0.2:1080''])))
          = [''socks4://10.0.0.2:1080'']"
    by code_simp
  with p lines h show ?thesis by simp
qed

section \<open>Two fetches through one proxy\<close>

lemma Get_is_its_effects:
  "fst (Get net now proxy url) = run_events (snd (snd (Get net now proxy url))) proxy"
  by (simp add: Get_def Let_def split: option.split response.split body_read.split)

lemma Get_effects_read_the_client_only:
  "client proxy' = client proxy \<Longrightarrow>
   snd (Get net now proxy' url) = snd (Get net now proxy url)"
  by (simp add: Get_def Let_def split: option.split response.split body_read.split)

lemma Get_writes:
  assumes "client proxy = Some c"
  shows "WriteAlive b \<in> set (snd (snd (Get net now proxy url)))
           \<longleftrightarrow> b = fetch_ok (client_Get net c url now)"
    and "WriteLastRequest t \<in> set (snd (snd (Get net now proxy url))) \<longleftrightarrow> t = now"
  using assms
  by (cases "client_Get net c url now" rule: fetch_ok.cases;
      auto simp: Get_def Let_def StatusOK_def)+

lemma last_Alive_written_in: "last_Alive_written evs = Some b \<Longrightarrow> WriteAlive b \<in> set evs"
  by (induction evs) (auto split: option.splits event.splits)

lemma last_Alive_written_None: "last_Alive_written evs = None \<Longrightarrow> WriteAlive b \<notin> set evs"
  by (induction evs) (auto split: option.splits event.splits)

lemma last_lastRequest_written_in:
  "last_lastRequest_written evs = Some t \<Longrightarrow> WriteLastRequest t \<in> set evs"
  by (induction evs) (auto split: option.splits event.splits)

lemma last_lastRequest_written_None:
  "last_lastRequest_written evs = None \<Longrightarrow> WriteLastRequest t \<notin> set evs"
  by (induction evs) (auto split: option.splits event.splits)

lemma run_events_Alive:
  "Alive (run_events evs proxy) =
     (case last_Alive_written evs of Some b \<Rightarrow> b | None \<Rightarrow> Alive proxy)"
proof (induction evs arbitrary: proxy)
  case Nil
  then show ?case by simp
next
  case (Cons ev evs)
  then show ?case by (cases ev) (simp_all split: option.split)
qed

lemma run_events_lastRequest:
  "lastRequest (run_events evs proxy) =
     (case last_lastRequest_written evs of Some t \<Rightarrow> t | None \<Rightarrow> lastRequest proxy)"
proof (induction evs arbitrary: proxy)
  case Nil
  then show ?case by simp
next
  case (Cons ev evs)
  then show ?case by (cases ev) (simp_all split: option.split)
qed

lemma interleaving_set: "interleaving tr xs ys \<Longrightarrow> set tr = set xs \<union> set ys"
proof (induction tr arbitrary: xs ys)
  case Nil
  then show ?case by simp
next
  case (Cons e tr)
  from Cons.prems consider
      xs' where "xs = e # xs'" "interleaving tr xs' ys"
    | ys' where "ys = e # ys'" "interleaving tr xs ys'"
    by (auto split: list.splits)
  then show ?case
  proof cases
    case 1
    with Cons.IH [of xs' ys] show ?thesis by auto
  next
    case 2
    with Cons.IH [of xs ys'] show ?thesis by auto
  qed
qed

lemma interleaving_shuffles: "interleaving tr xs ys \<longleftrightarrow> tr \<in> shuffles xs ys"
proof (induction tr arbitrary: xs ys)
  case Nil
  then show ?case by (auto simp: Nil_in_shuffles)
next
  case (Cons e tr)
  show ?case
    by (cases xs; cases ys) (auto simp: Cons.IH Cons_in_shuffles_iff)
qed

text \<open>
  Claim C10, as amended. Two fetches run at the same time through one proxy with a bound
  client, so that their effects are merged in some order. Every write of \<open>Alive\<close> is then
  the outcome of one of the two attempts and every write of \<open>lastRequest\<close> the time of one
  of them; the last write of each field is the one that stays; so in the end \<open>Alive\<close> is
  the outcome of one of the attempts and \<open>lastRequest\<close> the time of one of them. Nothing
  says that the two are the same attempt.
\<close>

theorem concurrent_fetches_last_write_wins:
  assumes "client proxy = Some c"
    and "interleaving tr (snd (snd (Get net t1 proxy url1))) (snd (snd (Get net t2 proxy url2)))"
  shows "(WriteAlive b \<in> set tr \<longrightarrow>
            b = fetch_ok (client_Get net c url1 t1) \<or> b = fetch_ok (client_Get net c url2 t2)) \<and>
         (WriteLastRequest t \<in> set tr \<longrightarrow> t = t1 \<or> t = t2) \<and>
         last_Alive_written tr = Some (Alive (run_events tr proxy)) \<and>
         last_lastRequest_written tr = Some (lastRequest (run_events tr proxy)) \<and>
         (Alive (run_events tr proxy) = fetch_ok (client_Get net c url1 t1) \<or>
          Alive (run_events tr proxy) = fetch_ok (client_Get net c url2 t2)) \<and>
         (lastRequest (run_events tr proxy) = t1 \<or> lastRequest (run_events tr proxy) = t2)"
proof -
  let ?A = "snd (snd (Get net t1 proxy url1))" and ?B = "snd (snd (Get net t2 proxy url2))"
  from assms(2) have set: "set tr = set ?A \<union> set ?B" by (rule interleaving_set)
  have wa: "b = fetch_ok (client_Get net c url1 t1) \<or> b = fetch_ok (client_Get net c url2 t2)"
    if "WriteAlive b \<in> set tr" for b
    using that set Get_writes(1) [OF assms(1)] by auto
  have wl: "t = t1 \<or> t = t2" if "WriteLastRequest t \<in> set tr" for t
    using that set Get_writes(2) [OF assms(1)] by auto
  have "WriteAlive (fetch_ok (client_Get net c url1 t1)) \<in> set tr"
    using set Get_writes(1) [OF assms(1)] by auto
  then obtain b' where la: "last_Alive_written tr = Some b'"
    using last_Alive_written_None [of tr] by (cases "last_Alive_written tr") auto
  have "WriteLastRequest t1 \<in> set tr"
    using set Get_writes(2) [OF assms(1)] by auto
  then obtain t' where ll: "last_lastRequest_written tr = Some t'"
    using last_lastRequest_written_None [of tr] by (cases "last_lastRequest_written tr") auto
  have fa: "Alive (run_events tr proxy) = b'" by (simp add: run_events_Alive la)
  have fl: "lastRequest (run_events tr proxy) = t'" by (simp add: run_events_lastRequest ll)
  from la have "WriteAlive b' \<in> set tr" by (rule last_Alive_written_in)
  then have oa: "b' = fetch_ok (client_Get net c url1 t1) \<or> b' = fetch_ok (client_Get net c url2 t2)"
    by (rule wa)
  from ll have "WriteLastRequest t' \<in> set tr" by (rule last_lastRequest_written_in)
  then have ol: "t' = t1 \<or> t' = t2" by (rule wl)
  from wa wl la ll fa fl oa ol show ?thesis by simp
qed

theorem concurrent_fetches_last_write_wins_witness:
  "client created_proxy = Some (bound_client ''socks5://10.0.0.1:1080'') \<and>
   interleaving late_failure
     (snd (snd (Get (up_from 2) 1 created_proxy ''http://example.com/page'')))
     (snd (snd (Get (up_from 2) 2 created_proxy ''http://example.com''))) \<and>
   last_Alive_written late_failure = Some (Alive (run_events late_failure created_proxy)) \<and>
   last_lastRequest_written late_failure
     = Some (lastRequest (run_events late_failure created_proxy))"
proof -
  have h: "client created_proxy = Some (bound_client ''socks5://10.0.0.1:1080'')"
    by (simp add: created_proxy_def)
  have i: "interleaving late_failure
     (snd (snd (Get (up_from 2) 1 created_proxy ''http://example.com/page'')))
     (snd (snd (Get (up_from 2) 2 created_proxy ''http://example.com'')))"
    by code_simp
  from concurrent_fetches_last_write_wins [OF h i] h i show ?thesis by simp
qed

text \<open>
  The claim as it was stated fails on the invariant that \<open>Alive\<close> tells the outcome of the
  most recent attempt. In the merge \<open>late_failure\<close> the attempt stamped at time 2 is the
  most recent one, as \<open>lastRequest\<close> says in the end, and it returned the body; the attempt
  stamped at time 1 failed later and its write of \<open>Alive\<close> is the last: the proxy is left
  dead.
\<close>

theorem concurrent_fetches_break_the_invariant:
  "interleaving late_failure
     (snd (snd (Get (up_from 2) 1 created_proxy ''http://example.com/page'')))
     (snd (snd (Get (up_from 2) 2 created_proxy ''http://example.com''))) \<and>
   lastRequest (run_events late_failure created_proxy) = 2 \<and>
   fst (snd (Get (up_from 2) 2 created_proxy ''http://example.com'')) = Body ''ok'' \<and>
   \<not> Alive (run_events late_failure created_proxy)"
  by code_simp

end
